theory Spec2Isabelle
  imports Main "HOL-Library.Word"
begin

section \<open>The desktop supervisor of src/desktop/main.js\<close>

text \<open>
  The program is a single-threaded, event-driven supervisor: module-level variables
  (\<open>pythonProcess\<close>, \<open>backendReady\<close>, \<open>isQuitting\<close>) are read and written by functions
  and by event handlers that run one at a time. The embedding passes the variables as a
  record, keeps the child-process objects in a store indexed by an object identity (the
  handlers are attached to the object, not to the variable that refers to it), and takes
  everything the operating system decides (spawn results, HTTP results, the clock, the
  moment an event is delivered) as an explicit argument.
\<close>

subsection \<open>Strings and errors\<close>

text \<open>
  Commands and environment values are JavaScript strings: sequences of UTF-16 code
  units. Error codes, signal names and the platform name are ASCII and kept as HOL strings.
\<close>

type_synonym js_string = "16 word list"

definition ascii :: "string \<Rightarrow> js_string" where
  "ascii s = map of_char s"

text \<open>A Node.js \<open>Error\<close> object: its optional \<open>code\<close> property and its message.\<close>

datatype node_error = NodeError (code: "string option") (message: string)

text \<open>What the supervisor's own functions reject or throw with.\<close>

datatype launch_error =
    EntryPointNotFound
  | NoInterpreterFound
  | SpawnError node_error

datatype wait_error =
    ChildExitedBeforeReady
  | ReadinessTimeout
  | HandlerRaised node_error

subsection \<open>Policy constants (lines 9, 10 and 89)\<close>

definition BACKEND_TIMEOUT_MS :: nat where
  "BACKEND_TIMEOUT_MS = 180000"

definition BACKEND_CHECK_INTERVAL_MS :: nat where
  "BACKEND_CHECK_INTERVAL_MS = 1000"

text \<open>The first argument of \<open>request.setTimeout\<close> in \<open>pingBackend\<close>.\<close>

definition PING_REQUEST_TIMEOUT_MS :: nat where
  "PING_REQUEST_TIMEOUT_MS = 3000"

subsection \<open>pingBackend (lines 77 to 93)\<close>

text \<open>
  What one \<open>http.get\<close> ends with: the response callback runs with a status code (which
  the test \<open>response.statusCode && ...\<close> allows to be undefined) and a body that is
  drained unread; or the request emits \<open>error\<close>; or the socket stays idle for
  \<open>PING_REQUEST_TIMEOUT_MS\<close> and the timeout callback destroys the request.
\<close>

datatype http_outcome =
    Response (statusCode: "int option") (body: string)
  | RequestError node_error
  | RequestTimeout

text \<open>
  The two errors the function builds itself. The message of the first ends with the
  status code, which the model leaves out of the text.
\<close>

definition unexpected_status :: "int option \<Rightarrow> node_error" where
  "unexpected_status c = NodeError None ''Unexpected status code''"

definition request_timed_out :: node_error where
  "request_timed_out = NodeError None ''Request timed out''"

fun pingBackend :: "http_outcome \<Rightarrow> node_error + unit" where
  "pingBackend (Response None b) = Inl (unexpected_status None)"
| "pingBackend (Response (Some c) b) =
     (if c \<noteq> 0 \<and> c \<ge> 200 \<and> c < 400 then Inr () else Inl (unexpected_status (Some c)))"
| "pingBackend (RequestError e) = Inl e"
| "pingBackend RequestTimeout = Inl request_timed_out"

subsection \<open>The candidate list of startBackend (lines 144 to 152)\<close>

text \<open>
  \<open>String.prototype.trim\<close> removes the ECMAScript WhiteSpace and LineTerminator code
  points from both ends: TAB, LF, VT, FF, CR, SP, NBSP, the Unicode space separators,
  LS, PS and the byte-order mark.
\<close>

definition isWhiteSpace :: "16 word \<Rightarrow> bool" where
  "isWhiteSpace c \<longleftrightarrow>
     c = 0x09 \<or> c = 0x0A \<or> c = 0x0B \<or> c = 0x0C \<or> c = 0x0D \<or> c = 0x20 \<or> c = 0xA0 \<or>
     c = 0x1680 \<or> (0x2000 \<le> c \<and> c \<le> 0x200A) \<or> c = 0x2028 \<or> c = 0x2029 \<or>
     c = 0x202F \<or> c = 0x205F \<or> c = 0x3000 \<or> c = 0xFEFF"

definition trim :: "js_string \<Rightarrow> js_string" where
  "trim s = rev (dropWhile isWhiteSpace (rev (dropWhile isWhiteSpace s)))"

text \<open>
  What the host gives a launch: the \<open>PYTHON\<close> environment variable, the platform name,
  whether the entry script exists, and what the spawn at each index of the candidate
  list ends with. A call of \<open>spawn\<close> either throws, or returns a child object that
  later emits \<open>spawn\<close> or \<open>error\<close>.
\<close>

datatype spawn_event = Spawned | SpawnFailed node_error | SpawnThrows node_error

record host =
  env_PYTHON :: "js_string option"
  platform :: string
  script_exists :: bool
  os_spawn :: "nat \<Rightarrow> js_string \<Rightarrow> spawn_event"

text \<open>
  \<open>process.env.PYTHON && process.env.PYTHON.trim().length > 0\<close>: an unset variable and
  the empty string are falsy.
\<close>

definition candidateCommands :: "('a host_scheme) \<Rightarrow> js_string list" where
  "candidateCommands h =
     (case env_PYTHON h of
        None \<Rightarrow> []
      | Some v \<Rightarrow> (if v \<noteq> [] \<and> length (trim v) > 0 then [trim v] else []))
     @ (if platform h = ''win32'' then [ascii ''python'', ascii ''python3'']
        else [ascii ''python3'', ascii ''python''])"

subsection \<open>The supervisor's variables and the child objects\<close>

text \<open>
  A \<open>ChildProcess\<close> object: the listeners attached to the object itself (the two
  \<open>once\<close> listeners of \<open>trySpawn\<close> and the \<open>exit\<close> handler of line 189), its
  \<open>killed\<close> flag, and \<open>exitCode\<close> and \<open>signalCode\<close>, which Node sets when the
  process ends. The \<open>data\<close> listeners of lines 186 and 187 sit on the two stream
  objects and are not part of this record.
\<close>

datatype listener = ErrorOnce | SpawnOnce | ExitHandler

record child =
  listeners :: "listener list"
  killed :: bool
  exitCode :: "int option"
  signalCode :: "string option"

text \<open>The arguments \<open>(code, signal)\<close> of an \<open>exit\<close> event: one of them is null.\<close>

datatype exit_status = ExitCode int | ExitSignal string

text \<open>
  The two error boxes: the start-up one of \<open>showStartupError\<close> and the one of the
  \<open>exit\<close> handler, tagged with the child whose handler showed it.
\<close>

datatype dialog = StartupErrorBox string | UnexpectedExitBox nat exit_status

text \<open>
  The module's variables (lines 12 to 15, without \<open>mainWindow\<close>), the store of child
  objects with the next free identity, and what the program has asked of Electron so far:
  the error boxes shown, and whether \<open>app.quit()\<close> was called.
\<close>

record state =
  pythonProcess :: "nat option"
  backendReady :: bool
  isQuitting :: bool
  children :: "nat \<Rightarrow> child"
  nextChild :: nat
  dialogs :: "dialog list"
  quitRequested :: bool

subsection \<open>stopBackend (lines 112 to 125)\<close>

text \<open>
  What \<open>pythonProcess.kill()\<close> does is the operating system's choice: the signal is
  delivered (the call returns true and sets \<open>killed\<close>), there is no such process (it
  returns false), or the call raises.
\<close>

datatype kill_outcome = KillDelivered | KillNoProcess | KillRaises node_error

fun kill :: "kill_outcome \<Rightarrow> 'a child_scheme \<Rightarrow> node_error + (bool \<times> 'a child_scheme)" where
  "kill KillDelivered c = Inr (True, c\<lparr>killed := True\<rparr>)"
| "kill KillNoProcess c = Inr (False, c)"
| "kill (KillRaises e) c = Inl e"

text \<open>Lines 116 to 120: the \<open>try\<close> around the call, with its empty \<open>catch\<close>.\<close>

definition try_kill :: "kill_outcome \<Rightarrow> 'a child_scheme \<Rightarrow> node_error + 'a child_scheme" where
  "try_kill k c = (case kill k c of Inl e \<Rightarrow> Inr c | Inr (b, c') \<Rightarrow> Inr c')"

definition stopBackend :: "kill_outcome \<Rightarrow> state \<Rightarrow> node_error + state" where
  "stopBackend k s =
     (case pythonProcess s of
        None \<Rightarrow> Inr s
      | Some p \<Rightarrow>
          (let c1 = (children s p)\<lparr>listeners := []\<rparr> in
           case (if \<not> killed c1 then try_kill k c1 else Inr c1) of
             Inl e \<Rightarrow> Inl e
           | Inr c2 \<Rightarrow>
               Inr (s\<lparr>children := (children s)(p := c2),
                       pythonProcess := None, backendReady := False\<rparr>)))"

subsection \<open>Event handlers\<close>

text \<open>
  The \<open>exit\<close> handler that \<open>handleSpawn\<close> attaches to child \<open>p\<close> (lines 189 to 197).
  \<open>app.quit()\<close> is recorded, not carried out: Electron answers it later with
  \<open>before-quit\<close>.
\<close>

definition exit_handler :: "nat \<Rightarrow> exit_status \<Rightarrow> state \<Rightarrow> state" where
  "exit_handler p st s =
     (let s1 = s\<lparr>pythonProcess := None, backendReady := False\<rparr> in
      if \<not> isQuitting s1
      then s1\<lparr>dialogs := dialogs s1 @ [UnexpectedExitBox p st], quitRequested := True\<rparr>
      else s1)"

text \<open>
  The process behind child object \<open>p\<close> ends: Node records how on the object and emits
  \<open>exit\<close>, which runs the handler when it is still attached.
\<close>

definition child_exits :: "nat \<Rightarrow> exit_status \<Rightarrow> state \<Rightarrow> state" where
  "child_exits p st s =
     (let c = (case st of
                 ExitCode n \<Rightarrow> (children s p)\<lparr>exitCode := Some n\<rparr>
               | ExitSignal g \<Rightarrow> (children s p)\<lparr>signalCode := Some g\<rparr>);
          s1 = s\<lparr>children := (children s)(p := c)\<rparr>
      in if ExitHandler \<in> set (listeners c) then exit_handler p st s1 else s1)"

text \<open>
  The events that reach the supervisor's variables while a function is suspended at an
  \<open>await\<close>: a child's exit, \<open>before-quit\<close> (lines 64 to 67) and the host process's
  \<open>exit\<close> (lines 254 to 256). The last two call \<open>stopBackend\<close> and carry what its
  \<open>kill\<close> will meet.
\<close>

datatype event = ChildExit nat exit_status | BeforeQuit kill_outcome | ProcessExit kill_outcome

fun dispatch :: "event \<Rightarrow> state \<Rightarrow> node_error + state" where
  "dispatch (ChildExit p st) s = Inr (child_exits p st s)"
| "dispatch (BeforeQuit k) s = stopBackend k (s\<lparr>isQuitting := True\<rparr>)"
| "dispatch (ProcessExit k) s = stopBackend k s"

fun run_events :: "event list \<Rightarrow> state \<Rightarrow> node_error + state" where
  "run_events [] s = Inr s"
| "run_events (e # es) s =
     (case dispatch e s of Inl x \<Rightarrow> Inl x | Inr s' \<Rightarrow> run_events es s')"

subsection \<open>startBackend (lines 132 to 208)\<close>

definition removeListener :: "listener \<Rightarrow> child \<Rightarrow> child" where
  "removeListener l c = c\<lparr>listeners := remove1 l (listeners c)\<rparr>"

definition update_child :: "nat \<Rightarrow> (child \<Rightarrow> child) \<Rightarrow> state \<Rightarrow> state" where
  "update_child p f s = s\<lparr>children := (children s)(p := f (children s p))\<rparr>"

text \<open>
  \<open>spawn\<close> returns a new child object, on which lines 202 and 203 attach the two
  \<open>once\<close> listeners.
\<close>

definition new_child :: "state \<Rightarrow> nat \<times> state" where
  "new_child s =
     (nextChild s,
      s\<lparr>children := (children s)(nextChild s :=
            \<lparr>listeners = [ErrorOnce, SpawnOnce], killed = False,
             exitCode = None, signalCode = None\<rparr>),
        nextChild := Suc (nextChild s)\<rparr>)"

text \<open>
  \<open>handleSpawn\<close> (lines 181 to 200), run by the \<open>spawn\<close> event: its own \<open>once\<close>
  listener is gone, it detaches \<open>handleError\<close>, stores the child and attaches the
  \<open>exit\<close> handler.
\<close>

definition handleSpawn :: "nat \<Rightarrow> state \<Rightarrow> state" where
  "handleSpawn p s =
     (let s1 = update_child p (removeListener ErrorOnce \<circ> removeListener SpawnOnce) s;
          s2 = s1\<lparr>pythonProcess := Some p, backendReady := False\<rparr>
      in update_child p (\<lambda>c. c\<lparr>listeners := listeners c @ [ExitHandler]\<rparr>) s2)"

text \<open>
  A launch is not one step. \<open>startBackend\<close> runs up to the first call of \<open>spawn\<close> and
  returns a promise; the child object emits \<open>spawn\<close> or \<open>error\<close> in a later turn of the
  event loop, and only then does \<open>handleSpawn\<close> store the child, or \<open>handleError\<close> call
  \<open>trySpawn\<close> for the next candidate. Other calls and handlers can run in between. So
  the embedding keeps, beside the variables: the promise of every call that reached
  \<open>new Promise\<close>; for every child object what its two \<open>once\<close> listeners close over
  (the promise, \<open>candidateCommands\<close> and \<open>index\<close>) and the event it is going to emit;
  the commands passed to \<open>spawn\<close> so far; and the exceptions that left a listener
  uncaught.
\<close>

datatype promise_state = Pending | Resolved | Rejected launch_error

record system =
  vars :: state
  promises :: "promise_state list"
  closure :: "nat \<Rightarrow> nat \<times> js_string list \<times> nat"
  awaited :: "nat \<Rightarrow> spawn_event"
  spawnLog :: "js_string list"
  uncaught :: "node_error list"

text \<open>\<open>resolve\<close> and \<open>reject\<close>: a promise that is settled already keeps its state.\<close>

definition settle :: "nat \<Rightarrow> promise_state \<Rightarrow> system \<Rightarrow> system" where
  "settle k v sys =
     (if k < length (promises sys) \<and> promises sys ! k = Pending
      then sys\<lparr>promises := (promises sys)[k := v]\<rparr>
      else sys)"

text \<open>
  \<open>trySpawn\<close> (lines 155 to 171, 202 and 203) for the promise \<open>k\<close>: one synchronous
  run, which makes at most one call of \<open>spawn\<close>. The first component of the result is the
  exception the run ends with, if \<open>spawn\<close> throws: nothing in \<open>trySpawn\<close> catches it.
\<close>

definition trySpawn ::
  "'a host_scheme \<Rightarrow> nat \<Rightarrow> js_string list \<Rightarrow> nat \<Rightarrow> system \<Rightarrow> node_error option \<times> system" where
  "trySpawn h k candidates index sys =
     (if index \<ge> length candidates
      then (None, settle k (Rejected NoInterpreterFound) sys)
      else
        (let command = candidates ! index;
             sys1 = sys\<lparr>spawnLog := spawnLog sys @ [command]\<rparr>
         in case os_spawn h index command of
              SpawnThrows e \<Rightarrow> (Some e, sys1)
            | Spawned \<Rightarrow>
                (let (p, s1) = new_child (vars sys1)
                 in (None, sys1\<lparr>vars := s1,
                                closure := (closure sys1)(p := (k, candidates, index)),
                                awaited := (awaited sys1)(p := Spawned)\<rparr>))
            | SpawnFailed error \<Rightarrow>
                (let (p, s1) = new_child (vars sys1)
                 in (None, sys1\<lparr>vars := s1,
                                closure := (closure sys1)(p := (k, candidates, index)),
                                awaited := (awaited sys1)(p := SpawnFailed error)\<rparr>))))"

text \<open>
  \<open>handleError\<close> of child \<open>p\<close> (lines 172 to 179). Node passes an \<open>Error\<close> object to
  the \<open>error\<close> event, so the first half of the test \<open>error && error.code === 'ENOENT'\<close>
  holds. The call of \<open>trySpawn\<close> in line 175 is not inside a \<open>try\<close>.
\<close>

definition handleError ::
  "'a host_scheme \<Rightarrow> nat \<Rightarrow> node_error \<Rightarrow> system \<Rightarrow> node_error option \<times> system" where
  "handleError h p error sys =
     (case closure sys p of
        (k, candidates, index) \<Rightarrow>
          (let sys1 = sys\<lparr>vars := update_child p (removeListener SpawnOnce) (vars sys)\<rparr>
           in if code error = Some ''ENOENT''
              then trySpawn h k candidates (index + 1) sys1
              else (None, settle k (Rejected (SpawnError error)) sys1)))"

text \<open>
  Child \<open>p\<close> emits the event its spawn led to, once. For \<open>spawn\<close> the listener of line
  203 runs \<open>handleSpawn\<close>, whose last statement resolves the promise. For \<open>error\<close> the
  listener of line 202 is detached and runs \<open>handleError\<close>; an exception that leaves it
  is uncaught, and no statement after the throw runs.
\<close>

definition emit :: "'a host_scheme \<Rightarrow> nat \<Rightarrow> system \<Rightarrow> system" where
  "emit h p sys =
     (if \<not> p < nextChild (vars sys) then sys
      else case awaited sys p of
        Spawned \<Rightarrow>
          if SpawnOnce \<in> set (listeners (children (vars sys) p))
          then settle (fst (closure sys p)) Resolved (sys\<lparr>vars := handleSpawn p (vars sys)\<rparr>)
          else sys
      | SpawnFailed error \<Rightarrow>
          if ErrorOnce \<in> set (listeners (children (vars sys) p))
          then (case handleError h p error
                       (sys\<lparr>vars := update_child p (removeListener ErrorOnce) (vars sys)\<rparr>) of
                  (None, sys') \<Rightarrow> sys'
                | (Some e, sys') \<Rightarrow> sys'\<lparr>uncaught := uncaught sys' @ [e]\<rparr>)
          else sys
      | SpawnThrows e \<Rightarrow> sys)"

text \<open>
  The promise a call of \<open>startBackend\<close> returns: \<open>Promise.resolve()\<close>, \<open>Promise.reject\<close>
  of the missing-script error, or the promise made by \<open>new Promise\<close> in line 154.
\<close>

datatype promise_ref = AlreadyResolved | AlreadyRejected launch_error | Created nat

text \<open>
  \<open>startBackend\<close> (lines 132 to 208). The executor of line 154 runs \<open>trySpawn(0)\<close>
  at once; an exception that leaves an executor rejects its promise.
\<close>

definition startBackend :: "'a host_scheme \<Rightarrow> system \<Rightarrow> promise_ref \<times> system" where
  "startBackend h sys =
     (case pythonProcess (vars sys) of
        Some p \<Rightarrow> (AlreadyResolved, sys)
      | None \<Rightarrow>
          if \<not> script_exists h then (AlreadyRejected EntryPointNotFound, sys)
          else
            (let candidates = candidateCommands h;
                 k = length (promises sys);
                 sys1 = sys\<lparr>promises := promises sys @ [Pending]\<rparr>
             in case trySpawn h k candidates 0 sys1 of
                  (None, sys2) \<Rightarrow> (Created k, sys2)
                | (Some e, sys2) \<Rightarrow> (Created k, settle k (Rejected (SpawnError e)) sys2)))"

text \<open>
  One turn of the event loop that concerns the supervisor: a call of \<open>startBackend\<close>, a
  child emitting \<open>spawn\<close> or \<open>error\<close>, or one of the handlers of the previous
  subsection.
\<close>

datatype sys_event = Call | Emit nat | Handler event

fun step :: "'a host_scheme \<Rightarrow> sys_event \<Rightarrow> system \<Rightarrow> system" where
  "step h Call sys = snd (startBackend h sys)"
| "step h (Emit p) sys = emit h p sys"
| "step h (Handler e) sys =
     (case dispatch e (vars sys) of
        Inl x \<Rightarrow> sys\<lparr>uncaught := uncaught sys @ [x]\<rparr>
      | Inr s' \<Rightarrow> sys\<lparr>vars := s'\<rparr>)"

fun run :: "'a host_scheme \<Rightarrow> sys_event list \<Rightarrow> system \<Rightarrow> system" where
  "run h [] sys = sys"
| "run h (e # es) sys = run h es (step h e sys)"

text \<open>
  A child object is in flight from its spawn until it emits, and supervised while it
  carries the \<open>exit\<close> handler and has not exited.
\<close>

definition in_flight :: "state \<Rightarrow> nat \<Rightarrow> bool" where
  "in_flight s p \<longleftrightarrow>
     p < nextChild s \<and>
     (ErrorOnce \<in> set (listeners (children s p)) \<or> SpawnOnce \<in> set (listeners (children s p)))"

definition supervised :: "state \<Rightarrow> nat \<Rightarrow> bool" where
  "supervised s p \<longleftrightarrow>
     p < nextChild s \<and> ExitHandler \<in> set (listeners (children s p))
     \<and> exitCode (children s p) = None \<and> signalCode (children s p) = None"

subsection \<open>waitForBackendReady (lines 95 to 110)\<close>

text \<open>
  What the outside world does during one iteration of the loop: the events delivered
  while the request is pending, how the request ends and after how many milliseconds,
  the events delivered during the sleep, and by how much the timer fires late (it
  never fires early).
\<close>

record tick =
  during_ping :: "event list"
  ping_result :: http_outcome
  ping_ms :: nat
  during_sleep :: "event list"
  sleep_late :: nat

text \<open>Line 103: \<open>!pythonProcess || pythonProcess.exitCode !== null\<close>.\<close>

definition child_gone :: "state \<Rightarrow> bool" where
  "child_gone s =
     (case pythonProcess s of None \<Rightarrow> True | Some p \<Rightarrow> exitCode (children s p) \<noteq> None)"

text \<open>
  The loop, from the reading \<open>now\<close> of \<open>Date.now()\<close> at its head in iteration \<open>i\<close>.
  It returns the function's result, the clock reading at which it settles, the events
  that were delivered while it was suspended, and the variables. If a handler raised,
  the host would report an uncaught exception; \<open>dispatch\<close> never does.
\<close>

function waitLoop ::
  "(nat \<Rightarrow> tick) \<Rightarrow> nat \<Rightarrow> nat \<Rightarrow> nat \<Rightarrow> state
     \<Rightarrow> (wait_error + unit) \<times> nat \<times> event list \<times> state" where
  "waitLoop w i start now s =
     (if now - start < BACKEND_TIMEOUT_MS then
        (case run_events (during_ping (w i)) s of
           Inl x \<Rightarrow> (Inl (HandlerRaised x), now, [], s)
         | Inr s1 \<Rightarrow>
             (case pingBackend (ping_result (w i)) of
                Inr u \<Rightarrow>
                  (Inr (), now + ping_ms (w i), during_ping (w i),
                   s1\<lparr>backendReady := True\<rparr>)
              | Inl error \<Rightarrow>
                  if child_gone s1
                  then (Inl ChildExitedBeforeReady, now + ping_ms (w i), during_ping (w i), s1)
                  else
                    (case run_events (during_sleep (w i)) s1 of
                       Inl x \<Rightarrow> (Inl (HandlerRaised x), now + ping_ms (w i), during_ping (w i), s1)
                     | Inr s2 \<Rightarrow>
                         (case waitLoop w (Suc i) start
                                 (now + ping_ms (w i) + BACKEND_CHECK_INTERVAL_MS + sleep_late (w i)) s2 of
                            (r, t, evs, s') \<Rightarrow>
                              (r, t, during_ping (w i) @ during_sleep (w i) @ evs, s')))))
      else (Inl ReadinessTimeout, now, [], s))"
  by pat_completeness auto
termination
  by (relation "measure (\<lambda>(w, i, start, now, s). start + BACKEND_TIMEOUT_MS - now)")
    (auto simp: BACKEND_CHECK_INTERVAL_MS_def)

definition waitForBackendReady ::
  "(nat \<Rightarrow> tick) \<Rightarrow> nat \<Rightarrow> state \<Rightarrow> (wait_error + unit) \<times> nat \<times> event list \<times> state" where
  "waitForBackendReady w now s = waitLoop w 0 now now s"

subsection \<open>What the world does in the first iterations of a wait\<close>

text \<open>
  Two functions of the world alone, not of the program: the events it delivers during
  the iterations \<open>0, ..., n - 1\<close>, and the clock at the head of iteration \<open>n\<close> of a wait
  that began at \<open>start\<close>, when each of those iterations runs its request and its sleep
  in full.
\<close>

primrec events_before :: "(nat \<Rightarrow> tick) \<Rightarrow> nat \<Rightarrow> event list" where
  "events_before w 0 = []"
| "events_before w (Suc n) = events_before w n @ during_ping (w n) @ during_sleep (w n)"

primrec head_time :: "(nat \<Rightarrow> tick) \<Rightarrow> nat \<Rightarrow> nat \<Rightarrow> nat" where
  "head_time w start 0 = start"
| "head_time w start (Suc n) =
     head_time w start n + ping_ms (w n) + BACKEND_CHECK_INTERVAL_MS + sleep_late (w n)"

subsection \<open>Two concrete states\<close>

text \<open>
  The variables as the module initialises them (lines 12 to 15), and the state after one
  successful launch: child 0 is stored and carries the \<open>exit\<close> handler.
\<close>

definition initial_state :: state where
  "initial_state =
     \<lparr>pythonProcess = None, backendReady = False, isQuitting = False,
      children = (\<lambda>p. \<lparr>listeners = [], killed = False, exitCode = None, signalCode = None\<rparr>),
      nextChild = 0, dialogs = [], quitRequested = False\<rparr>"

definition running_state :: state where
  "running_state =
     initial_state
       \<lparr>pythonProcess := Some 0,
        children := (children initial_state)
          (0 := \<lparr>listeners = [ExitHandler], killed = False, exitCode = None, signalCode = None\<rparr>),
        nextChild := 1\<rparr>"

subsection \<open>Concrete hosts and the start of the program\<close>

definition initial_system :: system where
  "initial_system =
     \<lparr>vars = initial_state, promises = [], closure = (\<lambda>p. (0, [], 0)),
      awaited = (\<lambda>p. Spawned), spawnLog = [], uncaught = []\<rparr>"

text \<open>Linux, no \<open>PYTHON\<close> variable, the script exists, and every spawn succeeds.\<close>

definition host_ok :: host where
  "host_ok = \<lparr>env_PYTHON = None, platform = ''linux'', script_exists = True,
              os_spawn = (\<lambda>i c. Spawned)\<rparr>"

text \<open>
  The same, but \<open>python3\<close> is not installed and the spawn of \<open>python\<close> throws, as Node's
  \<open>spawn\<close> does for an error number other than EACCES, EAGAIN, EMFILE, ENFILE and ENOENT.
\<close>

definition host_late_throw :: host where
  "host_late_throw = host_ok
     \<lparr>os_spawn := (\<lambda>i c. if i = 0 then SpawnFailed (NodeError (Some ''ENOENT'') ''spawn ENOENT'')
                          else SpawnThrows (NodeError (Some ''E2BIG'') ''spawn E2BIG''))\<rparr>"

text \<open>The first spawn throws.\<close>

definition host_first_throw :: host where
  "host_first_throw = host_ok
     \<lparr>os_spawn := (\<lambda>i c. SpawnThrows (NodeError (Some ''E2BIG'') ''spawn E2BIG''))\<rparr>"

text \<open>\<open>python3\<close> is not installed and \<open>python\<close> may not be executed.\<close>

definition host_late_eacces :: host where
  "host_late_eacces = host_ok
     \<lparr>os_spawn := (\<lambda>i c. if i = 0 then SpawnFailed (NodeError (Some ''ENOENT'') ''spawn ENOENT'')
                          else SpawnFailed (NodeError (Some ''EACCES'') ''spawn EACCES''))\<rparr>"

text \<open>No interpreter is installed.\<close>

definition host_none :: host where
  "host_none = host_ok
     \<lparr>os_spawn := (\<lambda>i c. SpawnFailed (NodeError (Some ''ENOENT'') ''spawn ENOENT''))\<rparr>"

text \<open>
  The states the program reaches when \<open>startBackend\<close> is never called while a child of
  an earlier call is still in flight (the program calls it once, from
  \<open>launchApplication\<close>), and when a child's \<open>exit\<close> event comes once, for a child that
  exists.
\<close>

inductive sequential :: "'a host_scheme \<Rightarrow> system \<Rightarrow> bool" for h :: "'a host_scheme" where
  seq_init: "sequential h initial_system"
| seq_call: "sequential h sys \<Longrightarrow> \<forall>p. \<not> in_flight (vars sys) p \<Longrightarrow>
             sequential h (step h Call sys)"
| seq_emit: "sequential h sys \<Longrightarrow> sequential h (step h (Emit p) sys)"
| seq_exit: "sequential h sys \<Longrightarrow> p < nextChild (vars sys) \<Longrightarrow>
             exitCode (children (vars sys) p) = None \<Longrightarrow>
             signalCode (children (vars sys) p) = None \<Longrightarrow>
             sequential h (step h (Handler (ChildExit p st)) sys)"
| seq_before_quit: "sequential h sys \<Longrightarrow> sequential h (step h (Handler (BeforeQuit k)) sys)"
| seq_process_exit: "sequential h sys \<Longrightarrow> sequential h (step h (Handler (ProcessExit k)) sys)"

text \<open>
  The invariant of those states: every child object has no listener, the two \<open>once\<close>
  listeners, or the \<open>exit\<close> handler alone; at most one child is in flight or
  supervised; and a supervised child is the one stored in \<open>pythonProcess\<close>.
\<close>

definition launch_inv :: "state \<Rightarrow> bool" where
  "launch_inv s \<longleftrightarrow>
     (\<forall>p. listeners (children s p) = [] \<or> listeners (children s p) = [ErrorOnce, SpawnOnce]
          \<or> listeners (children s p) = [ExitHandler])
     \<and> (\<forall>p q. (in_flight s p \<or> supervised s p) \<and> (in_flight s q \<or> supervised s q) \<longrightarrow> p = q)
     \<and> (\<forall>p. supervised s p \<longrightarrow> pythonProcess s = Some p)"

subsection \<open>Concrete worlds for the readiness wait\<close>

text \<open>
  An iteration during which no event is delivered and the timer fires on time, and the
  world in which every iteration is the same.
\<close>

definition quiet_tick :: "http_outcome \<Rightarrow> nat \<Rightarrow> tick" where
  "quiet_tick r ms =
     \<lparr>during_ping = [], ping_result = r, ping_ms = ms, during_sleep = [], sleep_late = 0\<rparr>"

definition every_tick :: "tick \<Rightarrow> nat \<Rightarrow> tick" where
  "every_tick t i = t"

text \<open>The back end answers 200 after 5 ms.\<close>

definition world_ready :: "nat \<Rightarrow> tick" where
  "world_ready = every_tick (quiet_tick (Response (Some 200) []) 5)"

text \<open>The back end answers 503 after 2999 ms, every time.\<close>

definition world_unavailable :: "nat \<Rightarrow> tick" where
  "world_unavailable = every_tick (quiet_tick (Response (Some 503) []) 2999)"

text \<open>Child 0 exits with code 1 while the first request is pending; the request is refused.\<close>

definition world_child_exits :: "nat \<Rightarrow> tick" where
  "world_child_exits =
     every_tick ((quiet_tick (RequestError (NodeError (Some ''ECONNREFUSED'') ''connect'')) 5)
       \<lparr>during_ping := [ChildExit 0 (ExitCode 1)]\<rparr>)"

text \<open>Every request is refused after 5 ms, and child 0 exits with code 1 during each sleep.\<close>

definition world_exit_while_asleep :: "nat \<Rightarrow> tick" where
  "world_exit_while_asleep =
     every_tick ((quiet_tick (RequestError (NodeError (Some ''ECONNREFUSED'') ''connect'')) 5)
       \<lparr>during_sleep := [ChildExit 0 (ExitCode 1)]\<rparr>)"

section \<open>Properties\<close>

declare waitLoop.simps [simp del]

subsection \<open>Helper facts about trim\<close>

lemma trim_empty_iff: "trim v = [] \<longleftrightarrow> (\<forall>c\<in>set v. isWhiteSpace c)"
proof
  assume "trim v = []"
  then have "dropWhile isWhiteSpace v = [] \<or>
      (\<forall>c\<in>set (dropWhile isWhiteSpace v). isWhiteSpace c)"
    by (simp add: trim_def dropWhile_eq_Nil_conv)
  then have "dropWhile isWhiteSpace v = []"
    by (metis hd_dropWhile list.set_sel(1))
  then show "\<forall>c\<in>set v. isWhiteSpace c"
    by (simp add: dropWhile_eq_Nil_conv)
next
  assume "\<forall>c\<in>set v. isWhiteSpace c"
  then have d: "dropWhile isWhiteSpace v = []"
    by (simp add: dropWhile_eq_Nil_conv)
  show "trim v = []"
    unfolding trim_def d by simp
qed

lemma trim_decompose:
  "v = takeWhile isWhiteSpace v @ trim v @
       rev (takeWhile isWhiteSpace (rev (dropWhile isWhiteSpace v)))"
proof -
  let ?d = "dropWhile isWhiteSpace v"
  have "rev ?d = takeWhile isWhiteSpace (rev ?d) @ dropWhile isWhiteSpace (rev ?d)"
    by simp
  then have "?d = rev (dropWhile isWhiteSpace (rev ?d)) @ rev (takeWhile isWhiteSpace (rev ?d))"
    by (metis rev_append rev_rev_ident)
  then have "?d = trim v @ rev (takeWhile isWhiteSpace (rev ?d))"
    by (simp add: trim_def)
  moreover have "v = takeWhile isWhiteSpace v @ ?d"
    by simp
  ultimately show ?thesis by metis
qed

lemma trim_hd: "trim v \<noteq> [] \<Longrightarrow> \<not> isWhiteSpace (hd (trim v))"
proof -
  assume ne: "trim v \<noteq> []"
  let ?d = "dropWhile isWhiteSpace v"
  let ?e = "dropWhile isWhiteSpace (rev ?d)"
  from ne have e: "?e \<noteq> []" by (simp add: trim_def)
  have d: "?d \<noteq> []"
  proof
    assume a: "?d = []"
    have "?e = []" unfolding a by simp
    with e show False by simp
  qed
  have "hd (rev ?e) = hd ?d"
  proof -
    have "rev ?d = takeWhile isWhiteSpace (rev ?d) @ ?e" by simp
    then have "?d = rev ?e @ rev (takeWhile isWhiteSpace (rev ?d))"
      by (metis rev_append rev_rev_ident)
    with e show ?thesis by (metis hd_append2 rev_is_Nil_conv)
  qed
  moreover have "\<not> isWhiteSpace (hd ?d)" using d by (rule hd_dropWhile)
  ultimately show ?thesis by (simp add: trim_def)
qed

lemma trim_last: "trim v \<noteq> [] \<Longrightarrow> \<not> isWhiteSpace (last (trim v))"
proof -
  assume ne: "trim v \<noteq> []"
  let ?e = "dropWhile isWhiteSpace (rev (dropWhile isWhiteSpace v))"
  from ne have e: "?e \<noteq> []" by (simp add: trim_def)
  then have "\<not> isWhiteSpace (hd ?e)" by (rule hd_dropWhile)
  with e show ?thesis by (simp add: trim_def last_rev)
qed

subsection \<open>The health probe\<close>

text \<open>
  Claim C8. A single probe resolves exactly on a completed response whose status code is
  in 200..399; the body plays no part in the decision; every other completed response,
  every request error and the request timeout reject.
\<close>

theorem pingBackend_ready_iff:
  "(pingBackend r = Inr () \<longleftrightarrow> (\<exists>c b. r = Response (Some c) b \<and> 200 \<le> c \<and> c \<le> 399))
   \<and> (pingBackend r \<noteq> Inr () \<longleftrightarrow> (\<exists>e. pingBackend r = Inl e))
   \<and> pingBackend (Response sc b1) = pingBackend (Response sc b2)"
proof (intro conjI)
  show "pingBackend r = Inr () \<longleftrightarrow> (\<exists>c b. r = Response (Some c) b \<and> 200 \<le> c \<and> c \<le> 399)"
    by (cases r rule: pingBackend.cases) auto
  show "pingBackend r \<noteq> Inr () \<longleftrightarrow> (\<exists>e. pingBackend r = Inl e)"
    by (cases "pingBackend r") auto
  show "pingBackend (Response sc b1) = pingBackend (Response sc b2)"
    by (cases sc) (simp_all add: unexpected_status_def)
qed

theorem pingBackend_ready_iff_witness:
  "pingBackend (Response (Some 204) ''ok'') = Inr ()
   \<and> pingBackend (Response (Some 399) []) = Inr ()
   \<and> pingBackend (Response (Some 400) ''ok'') \<noteq> Inr ()
   \<and> pingBackend (Response (Some 199) ''ok'') \<noteq> Inr ()
   \<and> pingBackend RequestTimeout \<noteq> Inr ()"
  using pingBackend_ready_iff [of "Response (Some 204) ''ok''"]
    pingBackend_ready_iff [of "Response (Some 399) []"]
    pingBackend_ready_iff [of "Response (Some 400) ''ok''"]
    pingBackend_ready_iff [of "Response (Some 199) ''ok''"]
    pingBackend_ready_iff [of RequestTimeout]
  by simp

subsection \<open>The policy constants\<close>

text \<open>
  Claim C9, as stated: the per-request probe timeout is shorter than the poll interval.
  The code's values are 3000 ms and 1000 ms, so the relation fails.
\<close>

theorem probe_timeout_not_below_interval:
  "\<not> PING_REQUEST_TIMEOUT_MS < BACKEND_CHECK_INTERVAL_MS"
  by (simp add: PING_REQUEST_TIMEOUT_MS_def BACKEND_CHECK_INTERVAL_MS_def)

text \<open>
  Claim C9, amended: the poll interval is one second, the overall readiness timeout is
  three minutes (180 poll intervals), and the per-request probe timeout is three poll
  intervals, a sixtieth of the overall timeout.
\<close>

theorem policy_constants:
  "BACKEND_CHECK_INTERVAL_MS = 1000
   \<and> BACKEND_TIMEOUT_MS = 3 * 60 * 1000
   \<and> BACKEND_TIMEOUT_MS = 180 * BACKEND_CHECK_INTERVAL_MS
   \<and> PING_REQUEST_TIMEOUT_MS = 3 * BACKEND_CHECK_INTERVAL_MS
   \<and> BACKEND_TIMEOUT_MS = 60 * PING_REQUEST_TIMEOUT_MS"
  by (simp add: PING_REQUEST_TIMEOUT_MS_def BACKEND_CHECK_INTERVAL_MS_def
      BACKEND_TIMEOUT_MS_def)

subsection \<open>The command override\<close>

text \<open>
  Claim C10. When \<open>PYTHON\<close> is set to a value with a non-whitespace character, the first
  candidate is that value without its leading and trailing whitespace, followed by the
  platform defaults; when the value is empty or whitespace only, the list is the platform
  defaults alone, as if the variable were unset. The defaults are python, python3 on
  win32 and python3, python elsewhere.
\<close>

theorem candidateCommands_override_trimmed:
  assumes "env_PYTHON h = Some v"
  shows "((\<exists>c\<in>set v. \<not> isWhiteSpace c) \<longrightarrow>
            candidateCommands h =
              trim v # (if platform h = ''win32'' then [ascii ''python'', ascii ''python3'']
                        else [ascii ''python3'', ascii ''python''])
            \<and> (\<exists>a b. v = a @ trim v @ b
                  \<and> (\<forall>c\<in>set a. isWhiteSpace c) \<and> (\<forall>c\<in>set b. isWhiteSpace c))
            \<and> \<not> isWhiteSpace (hd (trim v)) \<and> \<not> isWhiteSpace (last (trim v)))
       \<and> ((\<forall>c\<in>set v. isWhiteSpace c) \<longrightarrow>
            candidateCommands h =
              (if platform h = ''win32'' then [ascii ''python'', ascii ''python3'']
               else [ascii ''python3'', ascii ''python''])
            \<and> candidateCommands h = candidateCommands (h\<lparr>env_PYTHON := None\<rparr>))"
proof (intro conjI impI)
  assume ne: "\<exists>c\<in>set v. \<not> isWhiteSpace c"
  then have t: "trim v \<noteq> []" by (simp add: trim_empty_iff)
  from ne have v: "v \<noteq> []" by auto
  show "candidateCommands h =
          trim v # (if platform h = ''win32'' then [ascii ''python'', ascii ''python3'']
                    else [ascii ''python3'', ascii ''python''])"
    using assms t v by (simp add: candidateCommands_def)
  have "\<forall>c\<in>set (takeWhile isWhiteSpace v). isWhiteSpace c"
    by (auto dest: set_takeWhileD)
  moreover have
    "\<forall>c\<in>set (rev (takeWhile isWhiteSpace (rev (dropWhile isWhiteSpace v)))). isWhiteSpace c"
    by (auto dest: set_takeWhileD)
  ultimately show "\<exists>a b. v = a @ trim v @ b
      \<and> (\<forall>c\<in>set a. isWhiteSpace c) \<and> (\<forall>c\<in>set b. isWhiteSpace c)"
    using trim_decompose [of v] by blast
  show "\<not> isWhiteSpace (hd (trim v))" using t by (rule trim_hd)
  show "\<not> isWhiteSpace (last (trim v))" using t by (rule trim_last)
next
  assume ws: "\<forall>c\<in>set v. isWhiteSpace c"
  then have t: "trim v = []" by (simp add: trim_empty_iff)
  show "candidateCommands h =
          (if platform h = ''win32'' then [ascii ''python'', ascii ''python3'']
           else [ascii ''python3'', ascii ''python''])"
    using assms t by (simp add: candidateCommands_def)
  show "candidateCommands h = candidateCommands (h\<lparr>env_PYTHON := None\<rparr>)"
    using assms t by (simp add: candidateCommands_def)
qed

theorem candidateCommands_override_trimmed_witness:
  "candidateCommands \<lparr>env_PYTHON = Some (ascii '' /opt/py3 ''), platform = ''linux'',
       script_exists = True, os_spawn = (\<lambda>i c. Spawned)\<rparr>
     = [ascii ''/opt/py3'', ascii ''python3'', ascii ''python'']
   \<and> candidateCommands \<lparr>env_PYTHON = Some (ascii ''  ''), platform = ''win32'',
       script_exists = True, os_spawn = (\<lambda>i c. Spawned)\<rparr>
     = [ascii ''python'', ascii ''python3'']"
proof -
  have ws: "isWhiteSpace 32" "\<not> isWhiteSpace 47" "\<not> isWhiteSpace 51"
    by (simp_all add: isWhiteSpace_def)
  have t: "trim (ascii '' /opt/py3 '') = ascii ''/opt/py3''"
    by (simp add: trim_def ascii_def ws)
  have a: "\<exists>c\<in>set (ascii '' /opt/py3 ''). \<not> isWhiteSpace c"
    using ws by (simp add: ascii_def)
  have b: "\<forall>c\<in>set (ascii ''  ''). isWhiteSpace c"
    using ws by (simp add: ascii_def)
  show ?thesis
    using a b t
      candidateCommands_override_trimmed
        [of "\<lparr>env_PYTHON = Some (ascii '' /opt/py3 ''), platform = ''linux'',
               script_exists = True, os_spawn = (\<lambda>i c. Spawned)\<rparr>" "ascii '' /opt/py3 ''"]
      candidateCommands_override_trimmed
        [of "\<lparr>env_PYTHON = Some (ascii ''  ''), platform = ''win32'',
               script_exists = True, os_spawn = (\<lambda>i c. Spawned)\<rparr>" "ascii ''  ''"]
    by simp
qed

subsection \<open>Shutdown\<close>

lemma stopBackend_None: "pythonProcess s = None \<Longrightarrow> stopBackend k s = Inr s"
  by (simp add: stopBackend_def)

lemma try_kill_total: "\<exists>c'. try_kill k c = Inr c' \<and> listeners c' = listeners c
    \<and> exitCode c' = exitCode c \<and> (killed c' \<longleftrightarrow> killed c \<or> k = KillDelivered)"
  by (cases k) (simp_all add: try_kill_def)

lemma stopBackend_Some:
  assumes "pythonProcess s = Some p"
  shows "\<exists>c. stopBackend k s =
            Inr (s\<lparr>children := (children s)(p := c), pythonProcess := None, backendReady := False\<rparr>)
          \<and> listeners c = [] \<and> exitCode c = exitCode (children s p)
          \<and> (killed c \<longleftrightarrow> killed (children s p) \<or> k = KillDelivered)"
proof (cases "killed (children s p)")
  case True
  with assms show ?thesis
    by (intro exI [of _ "(children s p)\<lparr>listeners := []\<rparr>"]) (simp add: stopBackend_def)
next
  case False
  obtain c' where c': "try_kill k ((children s p)\<lparr>listeners := []\<rparr>) = Inr c'"
    "listeners c' = []" "exitCode c' = exitCode (children s p)"
    "killed c' \<longleftrightarrow> k = KillDelivered"
    using try_kill_total [of k "(children s p)\<lparr>listeners := []\<rparr>"] False by auto
  with assms False show ?thesis
    by (intro exI [of _ c']) (simp add: stopBackend_def)
qed

lemma stopBackend_total: "\<exists>s'. stopBackend k s = Inr s'"
proof (cases "pythonProcess s")
  case None
  then show ?thesis by (simp add: stopBackend_None)
next
  case (Some p)
  then show ?thesis using stopBackend_Some [of s p k] by blast
qed

text \<open>
  Claim C6. With no child handle \<open>stopBackend\<close> changes nothing. With a handle it never
  raises, whatever \<open>kill\<close> does: afterwards the child has no listeners, the handle is
  null and the readiness flag is false, nothing else has changed, and \<open>kill\<close> was called
  unless the object's \<open>killed\<close> flag was already set (the flag then shows whether the
  signal was delivered). A second call in a row returns without error and changes nothing.
\<close>

theorem stopBackend_idempotent_swallows:
  "(pythonProcess s = None \<longrightarrow> stopBackend k s = Inr s)
   \<and> (\<forall>p. pythonProcess s = Some p \<longrightarrow>
         (\<exists>s'. stopBackend k s = Inr s'
            \<and> listeners (children s' p) = []
            \<and> (killed (children s' p) \<longleftrightarrow> killed (children s p) \<or> k = KillDelivered)
            \<and> pythonProcess s' = None \<and> \<not> backendReady s'
            \<and> isQuitting s' = isQuitting s \<and> dialogs s' = dialogs s
            \<and> quitRequested s' = quitRequested s \<and> nextChild s' = nextChild s
            \<and> (\<forall>q. q \<noteq> p \<longrightarrow> children s' q = children s q)))
   \<and> (\<exists>s'. stopBackend k s = Inr s' \<and> stopBackend k2 s' = Inr s')"
proof (intro conjI allI impI)
  assume "pythonProcess s = None"
  then show "stopBackend k s = Inr s" by (rule stopBackend_None)
next
  fix p assume p: "pythonProcess s = Some p"
  from stopBackend_Some [OF p, of k] obtain c where
    c: "stopBackend k s =
          Inr (s\<lparr>children := (children s)(p := c), pythonProcess := None, backendReady := False\<rparr>)"
      "listeners c = []" "killed c \<longleftrightarrow> killed (children s p) \<or> k = KillDelivered"
    by blast
  then show "\<exists>s'. stopBackend k s = Inr s'
            \<and> listeners (children s' p) = []
            \<and> (killed (children s' p) \<longleftrightarrow> killed (children s p) \<or> k = KillDelivered)
            \<and> pythonProcess s' = None \<and> \<not> backendReady s'
            \<and> isQuitting s' = isQuitting s \<and> dialogs s' = dialogs s
            \<and> quitRequested s' = quitRequested s \<and> nextChild s' = nextChild s
            \<and> (\<forall>q. q \<noteq> p \<longrightarrow> children s' q = children s q)"
    by simp
next
  show "\<exists>s'. stopBackend k s = Inr s' \<and> stopBackend k2 s' = Inr s'"
  proof (cases "pythonProcess s")
    case None
    then show ?thesis by (simp add: stopBackend_None)
  next
    case (Some p)
    from stopBackend_Some [OF Some, of k] obtain c where
      "stopBackend k s =
          Inr (s\<lparr>children := (children s)(p := c), pythonProcess := None, backendReady := False\<rparr>)"
      by blast
    then show ?thesis by (simp add: stopBackend_None)
  qed
qed

theorem stopBackend_idempotent_swallows_witness:
  "(\<exists>s'. stopBackend (KillRaises (NodeError (Some ''EPERM'') ''kill EPERM'')) running_state = Inr s'
      \<and> listeners (children s' 0) = [] \<and> \<not> killed (children s' 0)
      \<and> pythonProcess s' = None \<and> \<not> backendReady s'
      \<and> stopBackend KillNoProcess s' = Inr s')
   \<and> stopBackend KillDelivered initial_state = Inr initial_state"
proof -
  have a: "pythonProcess running_state = Some 0" "\<not> killed (children running_state 0)"
    "pythonProcess initial_state = None"
    by (simp_all add: running_state_def initial_state_def)
  have "stopBackend KillDelivered initial_state = Inr initial_state"
    using a stopBackend_idempotent_swallows [of initial_state KillDelivered] by simp
  moreover have "\<exists>s'. stopBackend (KillRaises (NodeError (Some ''EPERM'') ''kill EPERM'')) running_state = Inr s'
      \<and> listeners (children s' 0) = [] \<and> \<not> killed (children s' 0)
      \<and> pythonProcess s' = None \<and> \<not> backendReady s'
      \<and> stopBackend KillNoProcess s' = Inr s'"
    using a stopBackend_idempotent_swallows
      [of running_state "KillRaises (NodeError (Some ''EPERM'') ''kill EPERM'')" KillNoProcess]
    by (auto simp: stopBackend_None)
  ultimately show ?thesis by blast
qed

subsection \<open>Exit events after shutdown\<close>

lemma dispatch_total: "\<exists>s'. dispatch e s = Inr s'"
  by (cases e) (simp_all add: stopBackend_total)

lemma run_events_total: "\<exists>s'. run_events es s = Inr s'"
proof (induction es arbitrary: s)
  case Nil
  show ?case by simp
next
  case (Cons e es)
  obtain s1 where "dispatch e s = Inr s1" using dispatch_total by blast
  with Cons.IH [of s1] show ?case by simp
qed

lemma run_events_append:
  "run_events (xs @ ys) s =
     (case run_events xs s of Inl x \<Rightarrow> Inl x | Inr s' \<Rightarrow> run_events ys s')"
  by (induction xs arbitrary: s) (auto split: sum.splits)

text \<open>A child without the \<open>exit\<close> handler never gets one back, and shows no box.\<close>

lemma stopBackend_detached:
  assumes "stopBackend k s = Inr s'" "ExitHandler \<notin> set (listeners (children s p))"
  shows "ExitHandler \<notin> set (listeners (children s' p)) \<and> dialogs s' = dialogs s"
proof (cases "pythonProcess s")
  case None
  with assms show ?thesis by (simp add: stopBackend_None)
next
  case (Some q)
  from stopBackend_Some [OF Some, of k] obtain c where
    c: "stopBackend k s =
          Inr (s\<lparr>children := (children s)(q := c), pythonProcess := None, backendReady := False\<rparr>)"
      "listeners c = []"
    by blast
  with assms(1) have "s' = s\<lparr>children := (children s)(q := c), pythonProcess := None,
      backendReady := False\<rparr>"
    by simp
  with c(2) assms(2) show ?thesis by (cases "p = q") simp_all
qed

lemma child_exits_detached:
  assumes "ExitHandler \<notin> set (listeners (children s p))"
  shows "ExitHandler \<notin> set (listeners (children (child_exits q st s) p))
     \<and> (\<exists>new. dialogs (child_exits q st s) = dialogs s @ new
           \<and> (\<forall>st'. UnexpectedExitBox p st' \<notin> set new))"
proof (cases "q = p")
  case True
  with assms show ?thesis
    by (cases st) (simp_all add: child_exits_def)
next
  case False
  with assms show ?thesis
    by (cases st) (simp_all add: child_exits_def exit_handler_def Let_def)
qed

lemma dispatch_detached:
  assumes "dispatch e s = Inr s'" "ExitHandler \<notin> set (listeners (children s p))"
  shows "ExitHandler \<notin> set (listeners (children s' p))
     \<and> (\<exists>new. dialogs s' = dialogs s @ new \<and> (\<forall>st'. UnexpectedExitBox p st' \<notin> set new))"
proof (cases e)
  case (ChildExit q st)
  with assms child_exits_detached [of s p q st] show ?thesis by auto
next
  case (BeforeQuit k)
  with assms stopBackend_detached [of k "s\<lparr>isQuitting := True\<rparr>" s' p] show ?thesis by simp
next
  case (ProcessExit k)
  with assms stopBackend_detached [of k s s' p] show ?thesis by simp
qed

lemma run_events_detached:
  assumes "ExitHandler \<notin> set (listeners (children s p))"
  shows "\<exists>s' new. run_events es s = Inr s' \<and> dialogs s' = dialogs s @ new
           \<and> (\<forall>st. UnexpectedExitBox p st \<notin> set new)"
  using assms
proof (induction es arbitrary: s)
  case Nil
  show ?case by simp
next
  case (Cons e es)
  obtain s1 where s1: "dispatch e s = Inr s1" using dispatch_total by blast
  from dispatch_detached [OF s1 Cons.prems] obtain new1 where
    n1: "ExitHandler \<notin> set (listeners (children s1 p))" "dialogs s1 = dialogs s @ new1"
      "\<forall>st. UnexpectedExitBox p st \<notin> set new1"
    by blast
  from Cons.IH [OF n1(1)] obtain s2 new2 where
    n2: "run_events es s1 = Inr s2" "dialogs s2 = dialogs s1 @ new2"
      "\<forall>st. UnexpectedExitBox p st \<notin> set new2"
    by blast
  have "run_events (e # es) s = Inr s2" using s1 n2(1) by simp
  moreover have "dialogs s2 = dialogs s @ (new1 @ new2)" using n1(2) n2(2) by simp
  moreover have "\<forall>st. UnexpectedExitBox p st \<notin> set (new1 @ new2)" using n1(3) n2(3) by simp
  ultimately show ?case by blast
qed

text \<open>Once \<open>isQuitting\<close> is set it stays set, and no handler shows a box.\<close>

lemma dispatch_quitting:
  assumes "dispatch e s = Inr s'" "isQuitting s"
  shows "isQuitting s' \<and> dialogs s' = dialogs s"
proof (cases e)
  case (ChildExit q st)
  with assms show ?thesis
    by (cases st) (auto simp: child_exits_def exit_handler_def Let_def)
next
  case (BeforeQuit k)
  show ?thesis
  proof (cases "pythonProcess s")
    case None
    with assms BeforeQuit show ?thesis by (auto simp: stopBackend_None)
  next
    case (Some q)
    then have "pythonProcess (s\<lparr>isQuitting := True\<rparr>) = Some q" by simp
    from stopBackend_Some [OF this, of k] assms BeforeQuit show ?thesis by auto
  qed
next
  case (ProcessExit k)
  show ?thesis
  proof (cases "pythonProcess s")
    case None
    with assms ProcessExit show ?thesis by (auto simp: stopBackend_None)
  next
    case (Some q)
    from stopBackend_Some [OF Some, of k] assms ProcessExit show ?thesis by auto
  qed
qed

lemma run_events_quitting:
  assumes "isQuitting s"
  shows "\<exists>s'. run_events es s = Inr s' \<and> isQuitting s' \<and> dialogs s' = dialogs s"
  using assms
proof (induction es arbitrary: s)
  case Nil
  then show ?case by simp
next
  case (Cons e es)
  obtain s1 where s1: "dispatch e s = Inr s1" using dispatch_total by blast
  from dispatch_quitting [OF s1 Cons.prems] have q: "isQuitting s1" "dialogs s1 = dialogs s"
    by simp_all
  from Cons.IH [OF q(1)] s1 q(2) show ?case by auto
qed

text \<open>
  Claim C7. After \<open>stopBackend\<close> ran on child \<open>p\<close>, the handle is null and no sequence of
  later events (the exit of \<open>p\<close> among them) shows the unexpected-exit box for \<open>p\<close>.
  While \<open>isQuitting\<close> is set no sequence of events shows any box. The \<open>before-quit\<close>
  handler sets \<open>isQuitting\<close> and leaves the handle null.
\<close>

theorem no_exit_dialog_after_stop:
  "(pythonProcess s = Some p \<longrightarrow>
      (\<exists>s1. stopBackend k s = Inr s1 \<and> pythonProcess s1 = None
         \<and> (\<forall>es. \<exists>s2 new. run_events es s1 = Inr s2 \<and> dialogs s2 = dialogs s1 @ new
               \<and> (\<forall>st. UnexpectedExitBox p st \<notin> set new))))
   \<and> (isQuitting s \<longrightarrow> (\<forall>es. \<exists>s2. run_events es s = Inr s2 \<and> dialogs s2 = dialogs s))
   \<and> (\<exists>s1. dispatch (BeforeQuit k) s = Inr s1 \<and> isQuitting s1 \<and> pythonProcess s1 = None
         \<and> dialogs s1 = dialogs s)"
proof (intro conjI impI)
  assume p: "pythonProcess s = Some p"
  from stopBackend_Some [OF p, of k] obtain c where
    c: "stopBackend k s =
          Inr (s\<lparr>children := (children s)(p := c), pythonProcess := None, backendReady := False\<rparr>)"
      "listeners c = []"
    by blast
  let ?s1 = "s\<lparr>children := (children s)(p := c), pythonProcess := None, backendReady := False\<rparr>"
  have "ExitHandler \<notin> set (listeners (children ?s1 p))" using c(2) by simp
  then have "\<forall>es. \<exists>s2 new. run_events es ?s1 = Inr s2 \<and> dialogs s2 = dialogs ?s1 @ new
               \<and> (\<forall>st. UnexpectedExitBox p st \<notin> set new)"
    using run_events_detached by blast
  moreover have "pythonProcess ?s1 = None" by simp
  ultimately show "\<exists>s1. stopBackend k s = Inr s1 \<and> pythonProcess s1 = None
         \<and> (\<forall>es. \<exists>s2 new. run_events es s1 = Inr s2 \<and> dialogs s2 = dialogs s1 @ new
               \<and> (\<forall>st. UnexpectedExitBox p st \<notin> set new))"
    using c(1) by blast
next
  assume "isQuitting s"
  then show "\<forall>es. \<exists>s2. run_events es s = Inr s2 \<and> dialogs s2 = dialogs s"
    using run_events_quitting by blast
next
  show "\<exists>s1. dispatch (BeforeQuit k) s = Inr s1 \<and> isQuitting s1 \<and> pythonProcess s1 = None
         \<and> dialogs s1 = dialogs s"
  proof (cases "pythonProcess s")
    case None
    then show ?thesis by (simp add: stopBackend_None)
  next
    case (Some q)
    then have "pythonProcess (s\<lparr>isQuitting := True\<rparr>) = Some q" by simp
    from stopBackend_Some [OF this, of k] show ?thesis by auto
  qed
qed

theorem no_exit_dialog_after_stop_witness:
  "(\<exists>s1 s2 new. stopBackend KillDelivered running_state = Inr s1 \<and> pythonProcess s1 = None
       \<and> run_events [ChildExit 0 (ExitSignal ''SIGTERM'')] s1 = Inr s2
       \<and> dialogs s2 = dialogs s1 @ new
       \<and> UnexpectedExitBox 0 (ExitSignal ''SIGTERM'') \<notin> set new)
   \<and> (\<exists>s2. run_events [ChildExit 0 (ExitCode 1)] (running_state\<lparr>isQuitting := True\<rparr>) = Inr s2
         \<and> dialogs s2 = dialogs (running_state\<lparr>isQuitting := True\<rparr>))
   \<and> dialogs (child_exits 0 (ExitCode 1) running_state) = [UnexpectedExitBox 0 (ExitCode 1)]"
proof -
  have a: "pythonProcess running_state = Some 0"
    by (simp add: running_state_def initial_state_def)
  from no_exit_dialog_after_stop [of running_state 0 KillDelivered] a
  obtain s1 where s1: "stopBackend KillDelivered running_state = Inr s1" "pythonProcess s1 = None"
    "\<forall>es. \<exists>s2 new. run_events es s1 = Inr s2 \<and> dialogs s2 = dialogs s1 @ new
               \<and> (\<forall>st. UnexpectedExitBox 0 st \<notin> set new)"
    by blast
  from s1(3) obtain s2 new where
    s2: "run_events [ChildExit 0 (ExitSignal ''SIGTERM'')] s1 = Inr s2"
      "dialogs s2 = dialogs s1 @ new" "\<forall>st. UnexpectedExitBox 0 st \<notin> set new"
    by blast
  from s1(1,2) s2 have first: "\<exists>s1 s2 new. stopBackend KillDelivered running_state = Inr s1
       \<and> pythonProcess s1 = None
       \<and> run_events [ChildExit 0 (ExitSignal ''SIGTERM'')] s1 = Inr s2
       \<and> dialogs s2 = dialogs s1 @ new
       \<and> UnexpectedExitBox 0 (ExitSignal ''SIGTERM'') \<notin> set new"
    by blast
  have q: "isQuitting (running_state\<lparr>isQuitting := True\<rparr>)" by simp
  from no_exit_dialog_after_stop [of "running_state\<lparr>isQuitting := True\<rparr>" 0 KillDelivered] q
  have "\<forall>es. \<exists>s2. run_events es (running_state\<lparr>isQuitting := True\<rparr>) = Inr s2
      \<and> dialogs s2 = dialogs (running_state\<lparr>isQuitting := True\<rparr>)"
    by blast
  then have second: "\<exists>s2. run_events [ChildExit 0 (ExitCode 1)] (running_state\<lparr>isQuitting := True\<rparr>) = Inr s2
         \<and> dialogs s2 = dialogs (running_state\<lparr>isQuitting := True\<rparr>)"
    by blast
  have third: "dialogs (child_exits 0 (ExitCode 1) running_state) = [UnexpectedExitBox 0 (ExitCode 1)]"
    by (simp add: child_exits_def exit_handler_def running_state_def initial_state_def)
  from first second third show ?thesis by (intro conjI)
qed

subsection \<open>The spawn-fallback loop\<close>

lemma settle_simps [simp]:
  "vars (settle k v sys) = vars sys" "closure (settle k v sys) = closure sys"
  "awaited (settle k v sys) = awaited sys" "spawnLog (settle k v sys) = spawnLog sys"
  "uncaught (settle k v sys) = uncaught sys"
  by (simp_all add: settle_def)

text \<open>
  What one run of \<open>trySpawn\<close> does to the variables: nothing, or it adds one child
  object that is in flight. It settles no promise unless the candidates are used up.
\<close>

lemma trySpawn_vars:
  "vars (snd (trySpawn h k candidates index sys)) = vars sys
   \<or> vars (snd (trySpawn h k candidates index sys)) = snd (new_child (vars sys))"
  by (simp add: trySpawn_def Let_def split: spawn_event.splits prod.splits)

lemma trySpawn_promises:
  "index < length candidates \<Longrightarrow>
     promises (snd (trySpawn h k candidates index sys)) = promises sys"
  by (simp add: trySpawn_def Let_def split: spawn_event.splits prod.splits)

text \<open>While no child is in flight, only a new call can settle or create a promise.\<close>

lemma stopBackend_in_flight:
  assumes "stopBackend k s = Inr s'"
  shows "nextChild s' = nextChild s \<and> (in_flight s' p \<longrightarrow> in_flight s p)"
proof (cases "pythonProcess s")
  case None
  with assms show ?thesis by (simp add: stopBackend_None)
next
  case (Some q)
  from stopBackend_Some [OF Some, of k] obtain c where
    c: "stopBackend k s =
          Inr (s\<lparr>children := (children s)(q := c), pythonProcess := None, backendReady := False\<rparr>)"
      "listeners c = []"
    by blast
  with assms have "s' = s\<lparr>children := (children s)(q := c), pythonProcess := None,
      backendReady := False\<rparr>"
    by simp
  with c(2) show ?thesis by (simp add: in_flight_def)
qed

lemma child_exits_in_flight:
  "nextChild (child_exits q st s) = nextChild s
   \<and> (in_flight (child_exits q st s) p \<longleftrightarrow> in_flight s p)"
  by (cases st) (auto simp: child_exits_def exit_handler_def in_flight_def Let_def)

lemma dispatch_in_flight:
  assumes "dispatch e s = Inr s'"
  shows "in_flight s' p \<longrightarrow> in_flight s p"
proof (cases e)
  case (ChildExit q st)
  with assms child_exits_in_flight [of q st s p] show ?thesis by auto
next
  case (BeforeQuit k)
  with assms stopBackend_in_flight [of k "s\<lparr>isQuitting := True\<rparr>" s' p] show ?thesis
    by (simp add: in_flight_def)
next
  case (ProcessExit k)
  with assms stopBackend_in_flight [of k s s' p] show ?thesis by simp
qed

lemma step_idle:
  assumes "\<forall>p. \<not> in_flight (vars sys) p" "e \<noteq> Call"
  shows "promises (step h e sys) = promises sys \<and> (\<forall>p. \<not> in_flight (vars (step h e sys)) p)"
proof (cases e)
  case Call
  with assms show ?thesis by simp
next
  case (Emit p)
  have "emit h p sys = sys"
  proof (cases "p < nextChild (vars sys)")
    case False
    then show ?thesis by (simp add: emit_def)
  next
    case True
    with assms(1) have "ErrorOnce \<notin> set (listeners (children (vars sys) p))"
      "SpawnOnce \<notin> set (listeners (children (vars sys) p))"
      by (auto simp: in_flight_def)
    then show ?thesis by (simp add: emit_def split: spawn_event.splits)
  qed
  with Emit assms show ?thesis by simp
next
  case (Handler ev)
  obtain s' where s': "dispatch ev (vars sys) = Inr s'" using dispatch_total by blast
  with dispatch_in_flight [OF s'] assms(1) Handler show ?thesis by auto
qed

lemma run_idle:
  assumes "\<forall>p. \<not> in_flight (vars sys) p"
  shows "promises (run h (filter (\<lambda>e. e \<noteq> Call) es) sys) = promises sys"
  using assms
proof (induction es arbitrary: sys)
  case Nil
  show ?case by simp
next
  case (Cons e es)
  show ?case
  proof (cases "e = Call")
    case True
    with Cons show ?thesis by simp
  next
    case False
    from step_idle [OF Cons.prems False, of h]
    have "promises (step h e sys) = promises sys" "\<forall>p. \<not> in_flight (vars (step h e sys)) p"
      by simp_all
    with Cons.IH [of "step h e sys"] False show ?thesis by simp
  qed
qed

lemma run_append: "run h (xs @ ys) sys = run h ys (run h xs sys)"
  by (induction xs arbitrary: sys) simp_all

lemmas launch_defs =
  host_ok_def initial_system_def initial_state_def startBackend_def trySpawn_def
  candidateCommands_def new_child_def emit_def handleError_def handleSpawn_def
  update_child_def removeListener_def settle_def

text \<open>
  Claim C1 at a failing input. \<open>python3\<close> is not installed: its spawn ends with the
  \<open>error\<close> event and code ENOENT, and \<open>handleError\<close> spawns \<open>python\<close>. That call of
  \<open>spawn\<close> throws. The exception leaves the listener uncaught; the promise of the
  launch is still pending, and stays pending whatever event follows, short of a new
  call. The same exception thrown by the first spawn rejects the promise, and so does a
  second spawn that fails with the \<open>error\<close> event and another code.
\<close>

theorem late_spawn_throw_leaves_launch_pending:
  "promises (run host_late_throw [Call, Emit 0] initial_system) = [Pending]
   \<and> uncaught (run host_late_throw [Call, Emit 0] initial_system)
       = [NodeError (Some ''E2BIG'') ''spawn E2BIG'']
   \<and> spawnLog (run host_late_throw [Call, Emit 0] initial_system)
       = [ascii ''python3'', ascii ''python'']
   \<and> (\<forall>es. promises (run host_late_throw ([Call, Emit 0] @ filter (\<lambda>e. e \<noteq> Call) es)
                  initial_system) = [Pending])
   \<and> promises (run host_first_throw [Call] initial_system)
       = [Rejected (SpawnError (NodeError (Some ''E2BIG'') ''spawn E2BIG''))]
   \<and> promises (run host_late_eacces [Call, Emit 0, Emit 1] initial_system)
       = [Rejected (SpawnError (NodeError (Some ''EACCES'') ''spawn EACCES''))]
   \<and> spawnLog (run host_late_eacces [Call, Emit 0, Emit 1] initial_system)
       = [ascii ''python3'', ascii ''python'']"
proof -
  let ?sys = "run host_late_throw [Call, Emit 0] initial_system"
  have a: "promises ?sys = [Pending]"
    by (simp add: host_late_throw_def launch_defs)
  have b: "uncaught ?sys = [NodeError (Some ''E2BIG'') ''spawn E2BIG'']"
    by (simp add: host_late_throw_def launch_defs)
  have c: "spawnLog ?sys = [ascii ''python3'', ascii ''python'']"
    by (simp add: host_late_throw_def launch_defs)
  have n: "nextChild (vars ?sys) = 1" "listeners (children (vars ?sys) 0) = []"
    by (simp_all add: host_late_throw_def launch_defs)
  have idle: "\<forall>p. \<not> in_flight (vars ?sys) p"
  proof
    fix p
    show "\<not> in_flight (vars ?sys) p"
    proof (cases "p = 0")
      case True
      with n(2) show ?thesis unfolding in_flight_def by simp
    next
      case False
      with n(1) show ?thesis unfolding in_flight_def by simp
    qed
  qed
  have d: "\<forall>es. promises (run host_late_throw ([Call, Emit 0] @ filter (\<lambda>e. e \<noteq> Call) es)
                  initial_system) = [Pending]"
  proof
    fix es
    have "promises (run host_late_throw (filter (\<lambda>e. e \<noteq> Call) es) ?sys) = promises ?sys"
      using idle by (rule run_idle)
    with a show "promises (run host_late_throw ([Call, Emit 0] @ filter (\<lambda>e. e \<noteq> Call) es)
                  initial_system) = [Pending]"
      by (simp only: run_append)
  qed
  have e: "promises (run host_first_throw [Call] initial_system)
       = [Rejected (SpawnError (NodeError (Some ''E2BIG'') ''spawn E2BIG''))]"
    by (simp add: host_first_throw_def launch_defs)
  have f: "promises (run host_late_eacces [Call, Emit 0, Emit 1] initial_system)
       = [Rejected (SpawnError (NodeError (Some ''EACCES'') ''spawn EACCES''))]"
    by (simp add: host_late_eacces_def launch_defs)
  have g: "spawnLog (run host_late_eacces [Call, Emit 0, Emit 1] initial_system)
       = [ascii ''python3'', ascii ''python'']"
    by (simp add: host_late_eacces_def launch_defs)
  from a b c d e f g show ?thesis by (intro conjI)
qed

subsection \<open>One child at a time\<close>

lemma candidateCommands_host_ok [simp]:
  "candidateCommands host_ok = [ascii ''python3'', ascii ''python'']"
  by (simp add: candidateCommands_def host_ok_def)

text \<open>The two steps of a launch whose spawn succeeds, as equations.\<close>

lemma call_spawned:
  assumes "pythonProcess (vars sys) = None" "script_exists h"
    and "candidateCommands h = c # cs" "os_spawn h 0 c = Spawned"
  shows "step h Call sys =
     sys\<lparr>promises := promises sys @ [Pending], spawnLog := spawnLog sys @ [c],
         vars := snd (new_child (vars sys)),
         closure := (closure sys)(nextChild (vars sys) := (length (promises sys), c # cs, 0)),
         awaited := (awaited sys)(nextChild (vars sys) := Spawned)\<rparr>"
  using assms by (simp add: startBackend_def trySpawn_def new_child_def Let_def)

lemma emit_spawned:
  assumes "p < nextChild (vars sys)" "awaited sys p = Spawned"
    and "SpawnOnce \<in> set (listeners (children (vars sys) p))"
  shows "step h (Emit p) sys =
     settle (fst (closure sys p)) Resolved (sys\<lparr>vars := handleSpawn p (vars sys)\<rparr>)"
  using assms by (simp add: emit_def)

lemma new_child_simps:
  "pythonProcess (snd (new_child s)) = pythonProcess s"
  "nextChild (snd (new_child s)) = Suc (nextChild s)"
  "children (snd (new_child s)) (nextChild s) =
     \<lparr>listeners = [ErrorOnce, SpawnOnce], killed = False, exitCode = None, signalCode = None\<rparr>"
  "q \<noteq> nextChild s \<Longrightarrow> children (snd (new_child s)) q = children s q"
  by (simp_all add: new_child_def)

lemma handleSpawn_simps:
  "pythonProcess (handleSpawn p s) = Some p"
  "nextChild (handleSpawn p s) = nextChild s"
  "listeners (children s p) = [ErrorOnce, SpawnOnce] \<Longrightarrow>
     listeners (children (handleSpawn p s) p) = [ExitHandler]"
  "exitCode (children (handleSpawn p s) p) = exitCode (children s p)"
  "signalCode (children (handleSpawn p s) p) = signalCode (children s p)"
  "q \<noteq> p \<Longrightarrow> children (handleSpawn p s) q = children s q"
  by (simp_all add: handleSpawn_def update_child_def removeListener_def)

text \<open>
  Claim C2, as stated: at most one child handle exists at any time. The guard of line
  133 looks at \<open>pythonProcess\<close>, which is set only when the child emits \<open>spawn\<close>. Two
  calls in a row both find it null; both spawn \<open>python3\<close>; after the two \<open>spawn\<close> events
  two children run under an \<open>exit\<close> handler, and the variable refers to the second.
\<close>

theorem overlapping_calls_spawn_two_children:
  "supervised (vars (run host_ok [Call, Call, Emit 0, Emit 1] initial_system)) 0
   \<and> supervised (vars (run host_ok [Call, Call, Emit 0, Emit 1] initial_system)) 1
   \<and> pythonProcess (vars (run host_ok [Call, Call, Emit 0, Emit 1] initial_system)) = Some 1
   \<and> spawnLog (run host_ok [Call, Call, Emit 0, Emit 1] initial_system)
       = [ascii ''python3'', ascii ''python3'']
   \<and> promises (run host_ok [Call, Call, Emit 0, Emit 1] initial_system) = [Resolved, Resolved]"
proof -
  let ?fresh = "\<lparr>listeners = [ErrorOnce, SpawnOnce], killed = False, exitCode = None,
      signalCode = None\<rparr>"
  define s1 where "s1 = step host_ok Call initial_system"
  define s2 where "s2 = step host_ok Call s1"
  define s3 where "s3 = step host_ok (Emit 0) s2"
  define s4 where "s4 = step host_ok (Emit 1) s3"
  have h: "script_exists host_ok" "os_spawn host_ok 0 (ascii ''python3'') = Spawned"
    by (simp_all add: host_ok_def)
  have i: "pythonProcess (vars initial_system) = None" "nextChild (vars initial_system) = 0"
    "promises initial_system = []" "spawnLog initial_system = []"
    by (simp_all add: initial_system_def initial_state_def)
  have e1: "s1 = initial_system\<lparr>promises := promises initial_system @ [Pending],
         spawnLog := spawnLog initial_system @ [ascii ''python3''],
         vars := snd (new_child (vars initial_system)),
         closure := (closure initial_system)(nextChild (vars initial_system) :=
            (length (promises initial_system), [ascii ''python3'', ascii ''python''], 0)),
         awaited := (awaited initial_system)(nextChild (vars initial_system) := Spawned)\<rparr>"
    unfolding s1_def using i(1) h by (rule call_spawned [OF _ _ candidateCommands_host_ok])
  have c10: "children (vars s1) 0 = ?fresh"
    using new_child_simps(3) [of "vars initial_system"] by (simp add: e1 i)
  have f1: "pythonProcess (vars s1) = None" "nextChild (vars s1) = 1"
    "awaited s1 0 = Spawned" "fst (closure s1 0) = 0"
    "promises s1 = [Pending]" "spawnLog s1 = [ascii ''python3'']"
    by (simp_all add: e1 i new_child_simps)
  have e2: "s2 = s1\<lparr>promises := promises s1 @ [Pending],
         spawnLog := spawnLog s1 @ [ascii ''python3''],
         vars := snd (new_child (vars s1)),
         closure := (closure s1)(nextChild (vars s1) :=
            (length (promises s1), [ascii ''python3'', ascii ''python''], 0)),
         awaited := (awaited s1)(nextChild (vars s1) := Spawned)\<rparr>"
    unfolding s2_def using f1(1) h by (rule call_spawned [OF _ _ candidateCommands_host_ok])
  have c21: "children (vars s2) (Suc 0) = ?fresh"
    using new_child_simps(3) [of "vars s1"] by (simp add: e2 f1)
  have c20: "children (vars s2) 0 = ?fresh"
    using new_child_simps(4) [of 0 "vars s1"] by (simp add: e2 f1 c10)
  have f2: "nextChild (vars s2) = 2" "awaited s2 0 = Spawned" "awaited s2 (Suc 0) = Spawned"
    "fst (closure s2 0) = 0" "fst (closure s2 (Suc 0)) = Suc 0"
    "promises s2 = [Pending, Pending]" "spawnLog s2 = [ascii ''python3'', ascii ''python3'']"
    by (simp_all add: e2 f1 new_child_simps)
  have e3: "s3 = settle (fst (closure s2 0)) Resolved (s2\<lparr>vars := handleSpawn 0 (vars s2)\<rparr>)"
    unfolding s3_def by (rule emit_spawned) (simp_all add: f2 c20)
  have c30: "listeners (children (vars s3) 0) = [ExitHandler]"
    "exitCode (children (vars s3) 0) = None" "signalCode (children (vars s3) 0) = None"
    by (simp_all add: e3 handleSpawn_simps c20)
  have c31: "children (vars s3) (Suc 0) = ?fresh"
    by (simp add: e3 handleSpawn_simps c21)
  have f3: "nextChild (vars s3) = 2" "awaited s3 (Suc 0) = Spawned" "fst (closure s3 (Suc 0)) = Suc 0"
    "promises s3 = [Resolved, Pending]" "spawnLog s3 = [ascii ''python3'', ascii ''python3'']"
    by (simp_all add: e3 f2 handleSpawn_simps settle_def)
  have e4: "s4 = settle (fst (closure s3 1)) Resolved (s3\<lparr>vars := handleSpawn 1 (vars s3)\<rparr>)"
    unfolding s4_def by (rule emit_spawned) (simp_all add: f3 c31)
  have c41: "listeners (children (vars s4) (Suc 0)) = [ExitHandler]"
    "exitCode (children (vars s4) (Suc 0)) = None" "signalCode (children (vars s4) (Suc 0)) = None"
    by (simp_all add: e4 handleSpawn_simps c31)
  have c40: "children (vars s4) 0 = children (vars s3) 0"
    by (simp add: e4 handleSpawn_simps)
  have f4: "nextChild (vars s4) = 2" "pythonProcess (vars s4) = Some 1"
    "promises s4 = [Resolved, Resolved]" "spawnLog s4 = [ascii ''python3'', ascii ''python3'']"
    by (simp_all add: e4 f3 handleSpawn_simps settle_def)
  have r: "run host_ok [Call, Call, Emit 0, Emit 1] initial_system = s4"
    by (simp add: s1_def s2_def s3_def s4_def)
  have "supervised (vars s4) 0" by (simp add: supervised_def f4 c40 c30)
  moreover have "supervised (vars s4) 1" by (simp add: supervised_def f4 c41)
  ultimately show ?thesis unfolding r using f4 by (intro conjI)
qed

lemma launch_inv_initial: "launch_inv initial_state"
  by (simp add: launch_inv_def initial_state_def in_flight_def supervised_def)

lemma new_child_inv:
  assumes "launch_inv s" "\<forall>p. \<not> in_flight s p \<and> \<not> supervised s p"
  shows "launch_inv (snd (new_child s))"
proof -
  let ?s = "snd (new_child s)"
  have n: "nextChild ?s = Suc (nextChild s)"
    "listeners (children ?s (nextChild s)) = [ErrorOnce, SpawnOnce]"
    "\<And>q. q \<noteq> nextChild s \<Longrightarrow> children ?s q = children s q"
    "pythonProcess ?s = pythonProcess s"
    by (simp_all add: new_child_def)
  have only: "in_flight ?s q \<or> supervised ?s q \<Longrightarrow> q = nextChild s" for q
  proof (rule ccontr)
    assume a: "in_flight ?s q \<or> supervised ?s q" and ne: "q \<noteq> nextChild s"
    then have "q < nextChild s" by (auto simp: in_flight_def supervised_def n(1))
    with a ne n(3) [OF ne] have "in_flight s q \<or> supervised s q"
      by (auto simp: in_flight_def supervised_def)
    with assms(2) show False by blast
  qed
  have "\<not> supervised ?s (nextChild s)" by (simp add: supervised_def n(2))
  with only have none: "\<not> supervised ?s q" for q by blast
  have shape: "listeners (children ?s q) = [] \<or> listeners (children ?s q) = [ErrorOnce, SpawnOnce]
          \<or> listeners (children ?s q) = [ExitHandler]" for q
  proof (cases "q = nextChild s")
    case True
    with n(2) show ?thesis by simp
  next
    case False
    with n(3) assms(1) show ?thesis by (simp add: launch_inv_def)
  qed
  from only none shape show ?thesis unfolding launch_inv_def by blast
qed

lemma startBackend_inv:
  assumes "launch_inv (vars sys)" "\<forall>p. \<not> in_flight (vars sys) p"
  shows "launch_inv (vars (snd (startBackend h sys)))"
proof (cases "pythonProcess (vars sys)")
  case (Some p)
  with assms(1) show ?thesis by (simp add: startBackend_def)
next
  case None
  with assms(1) have ns: "\<forall>p. \<not> supervised (vars sys) p" by (auto simp: launch_inv_def)
  let ?sys1 = "sys\<lparr>promises := promises sys @ [Pending]\<rparr>"
  let ?t = "trySpawn h (length (promises sys)) (candidateCommands h) 0 ?sys1"
  have v: "vars (snd (startBackend h sys)) = vars sys
      \<or> vars (snd (startBackend h sys)) = vars (snd ?t)"
    using None by (simp add: startBackend_def Let_def split: prod.splits option.splits)
  from trySpawn_vars [of h "length (promises sys)" "candidateCommands h" 0 ?sys1]
  have "vars (snd ?t) = vars sys \<or> vars (snd ?t) = snd (new_child (vars sys))" by simp
  with v have "vars (snd (startBackend h sys)) = vars sys
      \<or> vars (snd (startBackend h sys)) = snd (new_child (vars sys))"
    by auto
  with assms ns new_child_inv [of "vars sys"] show ?thesis by auto
qed

lemma handleSpawn_inv:
  assumes "launch_inv s" "p < nextChild s" "listeners (children s p) = [ErrorOnce, SpawnOnce]"
  shows "launch_inv (handleSpawn p s)"
proof -
  let ?s = "handleSpawn p s"
  have n: "nextChild ?s = nextChild s" "listeners (children ?s p) = [ExitHandler]"
    "\<And>q. q \<noteq> p \<Longrightarrow> children ?s q = children s q" "pythonProcess ?s = Some p"
    using assms(3) by (simp_all add: handleSpawn_def update_child_def removeListener_def)
  from assms(2,3) have fl: "in_flight s p" by (simp add: in_flight_def)
  have only: "in_flight ?s q \<or> supervised ?s q \<Longrightarrow> q = p" for q
  proof (rule ccontr)
    assume a: "in_flight ?s q \<or> supervised ?s q" and ne: "q \<noteq> p"
    with n(1) n(3) [OF ne] have "in_flight s q \<or> supervised s q"
      by (auto simp: in_flight_def supervised_def)
    with fl assms(1) ne show False unfolding launch_inv_def by blast
  qed
  have shape: "listeners (children ?s q) = [] \<or> listeners (children ?s q) = [ErrorOnce, SpawnOnce]
          \<or> listeners (children ?s q) = [ExitHandler]" for q
  proof (cases "q = p")
    case True
    with n(2) show ?thesis by simp
  next
    case False
    with n(3) assms(1) show ?thesis by (simp add: launch_inv_def)
  qed
  from only n(4) shape show ?thesis unfolding launch_inv_def by blast
qed

text \<open>The child in flight loses its two listeners: no child is left in flight or supervised.\<close>

lemma detach_inv:
  assumes "launch_inv s" "p < nextChild s" "listeners (children s p) = [ErrorOnce, SpawnOnce]"
  defines "s2 \<equiv> update_child p (removeListener SpawnOnce) (update_child p (removeListener ErrorOnce) s)"
  shows "launch_inv s2 \<and> (\<forall>q. \<not> in_flight s2 q \<and> \<not> supervised s2 q)"
proof -
  have n: "nextChild s2 = nextChild s" "listeners (children s2 p) = []"
    "\<And>q. q \<noteq> p \<Longrightarrow> children s2 q = children s q" "pythonProcess s2 = pythonProcess s"
    using assms(3) by (simp_all add: s2_def update_child_def removeListener_def)
  from assms(2,3) have fl: "in_flight s p" by (simp add: in_flight_def)
  have none: "\<not> in_flight s2 q \<and> \<not> supervised s2 q" for q
  proof (cases "q = p")
    case True
    with n(2) show ?thesis by (simp add: in_flight_def supervised_def)
  next
    case False
    show ?thesis
    proof (rule ccontr)
      assume "\<not> (\<not> in_flight s2 q \<and> \<not> supervised s2 q)"
      with n(1) n(3) [OF False] have "in_flight s q \<or> supervised s q"
        by (auto simp: in_flight_def supervised_def)
      with fl assms(1) False show False unfolding launch_inv_def by blast
    qed
  qed
  have shape: "listeners (children s2 q) = [] \<or> listeners (children s2 q) = [ErrorOnce, SpawnOnce]
          \<or> listeners (children s2 q) = [ExitHandler]" for q
  proof (cases "q = p")
    case True
    with n(2) show ?thesis by simp
  next
    case False
    with n(3) assms(1) show ?thesis by (simp add: launch_inv_def)
  qed
  from none shape show ?thesis unfolding launch_inv_def by blast
qed

lemma emit_inv:
  assumes "launch_inv (vars sys)"
  shows "launch_inv (vars (emit h p sys))"
proof (cases "p < nextChild (vars sys)")
  case False
  with assms show ?thesis by (simp add: emit_def)
next
  case lt: True
  from assms have shape: "listeners (children (vars sys) p) = []
      \<or> listeners (children (vars sys) p) = [ErrorOnce, SpawnOnce]
      \<or> listeners (children (vars sys) p) = [ExitHandler]"
    by (simp add: launch_inv_def)
  show ?thesis
  proof (cases "awaited sys p")
    case Spawned
    show ?thesis
    proof (cases "SpawnOnce \<in> set (listeners (children (vars sys) p))")
      case True
      with shape have "listeners (children (vars sys) p) = [ErrorOnce, SpawnOnce]" by auto
      from handleSpawn_inv [OF assms lt this] True lt Spawned show ?thesis
        by (simp add: emit_def)
    next
      case False
      with lt Spawned assms show ?thesis by (simp add: emit_def)
    qed
  next
    case (SpawnThrows e)
    with lt assms show ?thesis by (simp add: emit_def)
  next
    case (SpawnFailed error)
    show ?thesis
    proof (cases "ErrorOnce \<in> set (listeners (children (vars sys) p))")
      case False
      with lt SpawnFailed assms show ?thesis by (simp add: emit_def)
    next
      case True
      with shape have l: "listeners (children (vars sys) p) = [ErrorOnce, SpawnOnce]" by auto
      let ?s2 = "update_child p (removeListener SpawnOnce)
          (update_child p (removeListener ErrorOnce) (vars sys))"
      from detach_inv [OF assms lt l]
      have d: "launch_inv ?s2" "\<forall>q. \<not> in_flight ?s2 q \<and> \<not> supervised ?s2 q" by simp_all
      let ?sysa = "sys\<lparr>vars := update_child p (removeListener ErrorOnce) (vars sys)\<rparr>"
      let ?sysb = "?sysa\<lparr>vars := ?s2\<rparr>"
      obtain k candidates index where cl: "closure sys p = (k, candidates, index)"
        by (cases "closure sys p") auto
      have he: "vars (snd (handleError h p error ?sysa)) = ?s2
          \<or> vars (snd (handleError h p error ?sysa)) = snd (new_child ?s2)"
        using trySpawn_vars [of h k candidates "index + 1" ?sysb] cl
        by (auto simp: handleError_def Let_def)
      have "vars (emit h p sys) = vars (snd (handleError h p error ?sysa))"
        using lt SpawnFailed True by (simp add: emit_def split: prod.splits option.splits)
      with he d new_child_inv [OF d] show ?thesis by auto
    qed
  qed
qed

lemma child_exits_inv:
  assumes "launch_inv s" "q < nextChild s"
    "exitCode (children s q) = None" "signalCode (children s q) = None"
  shows "launch_inv (child_exits q st s)"
proof -
  let ?s = "child_exits q st s"
  have n: "nextChild ?s = nextChild s" "listeners (children ?s r) = listeners (children s r)"
    "r \<noteq> q \<Longrightarrow> children ?s r = children s r"
    "exitCode (children ?s q) \<noteq> None \<or> signalCode (children ?s q) \<noteq> None" for r
    by (cases st; simp add: child_exits_def exit_handler_def Let_def)+
  have sub: "in_flight ?s r \<or> supervised ?s r \<Longrightarrow> (in_flight s r \<or> supervised s r) \<and> r \<noteq> q \<or> in_flight s r" for r
    using n(1) n(2) [of r] n(3) [of r] n(4)
    by (cases "r = q") (auto simp: in_flight_def supervised_def)
  have one: "(in_flight ?s a \<or> supervised ?s a) \<and> (in_flight ?s b \<or> supervised ?s b) \<longrightarrow> a = b" for a b
    using sub [of a] sub [of b] assms(1) unfolding launch_inv_def by blast
  have sup: "supervised ?s r \<longrightarrow> pythonProcess ?s = Some r" for r
  proof
    assume a: "supervised ?s r"
    with n(4) have ne: "r \<noteq> q" by (auto simp: supervised_def)
    with a n(1) n(3) [OF ne] have sr: "supervised s r" by (simp add: supervised_def)
    with assms(1) have h: "pythonProcess s = Some r" by (simp add: launch_inv_def)
    have "ExitHandler \<notin> set (listeners (children s q))"
    proof
      assume "ExitHandler \<in> set (listeners (children s q))"
      with assms(2,3,4) have "supervised s q" by (simp add: supervised_def)
      with sr assms(1) ne show False unfolding launch_inv_def by blast
    qed
    then have "pythonProcess ?s = pythonProcess s"
      by (cases st) (simp_all add: child_exits_def Let_def)
    with h show "pythonProcess ?s = Some r" by simp
  qed
  have shape: "listeners (children ?s r) = [] \<or> listeners (children ?s r) = [ErrorOnce, SpawnOnce]
          \<or> listeners (children ?s r) = [ExitHandler]" for r
    using n(2) [of r] assms(1) by (simp add: launch_inv_def)
  from one sup shape show ?thesis unfolding launch_inv_def by blast
qed

lemma stopBackend_inv:
  assumes "launch_inv s" "stopBackend k s = Inr s'"
  shows "launch_inv s'"
proof (cases "pythonProcess s")
  case None
  with assms show ?thesis by (simp add: stopBackend_None)
next
  case (Some p)
  from stopBackend_Some [OF Some, of k] obtain c where
    c: "stopBackend k s =
          Inr (s\<lparr>children := (children s)(p := c), pythonProcess := None, backendReady := False\<rparr>)"
      "listeners c = []"
    by blast
  with assms(2) have s': "s' = s\<lparr>children := (children s)(p := c), pythonProcess := None,
      backendReady := False\<rparr>"
    by simp
  have n: "nextChild s' = nextChild s" "listeners (children s' p) = []"
    "\<And>r. r \<noteq> p \<Longrightarrow> children s' r = children s r"
    using c(2) by (simp_all add: s')
  have sub: "in_flight s' r \<or> supervised s' r \<Longrightarrow> (in_flight s r \<or> supervised s r) \<and> r \<noteq> p" for r
    using n(1) n(2) n(3) [of r] by (cases "r = p") (auto simp: in_flight_def supervised_def)
  have one: "(in_flight s' a \<or> supervised s' a) \<and> (in_flight s' b \<or> supervised s' b) \<longrightarrow> a = b" for a b
    using sub [of a] sub [of b] assms(1) unfolding launch_inv_def by blast
  have sup: "\<not> supervised s' r" for r
  proof
    assume a: "supervised s' r"
    with n(2) have ne: "r \<noteq> p" by (auto simp: supervised_def)
    with a n(1) n(3) [OF ne] have "supervised s r" by (simp add: supervised_def)
    with assms(1) Some ne show False by (simp add: launch_inv_def)
  qed
  have shape: "listeners (children s' r) = [] \<or> listeners (children s' r) = [ErrorOnce, SpawnOnce]
          \<or> listeners (children s' r) = [ExitHandler]" for r
    using n(2) n(3) [of r] assms(1) by (cases "r = p") (simp_all add: launch_inv_def)
  from one sup shape show ?thesis unfolding launch_inv_def by blast
qed

lemma isQuitting_inv: "launch_inv (s\<lparr>isQuitting := b\<rparr>) = launch_inv s"
  by (simp add: launch_inv_def in_flight_def supervised_def)

lemma sequential_inv: "sequential h sys \<Longrightarrow> launch_inv (vars sys)"
proof (induction rule: sequential.induct)
  case seq_init
  show ?case by (simp add: initial_system_def launch_inv_initial)
next
  case (seq_call sys)
  then show ?case using startBackend_inv [of sys h] by simp
next
  case (seq_emit sys p)
  then show ?case using emit_inv [of sys h p] by simp
next
  case (seq_exit sys p st)
  then show ?case using child_exits_inv [of "vars sys" p st] by simp
next
  case (seq_before_quit sys k)
  obtain s' where s': "stopBackend k ((vars sys)\<lparr>isQuitting := True\<rparr>) = Inr s'"
    using stopBackend_total by blast
  from seq_before_quit.IH have "launch_inv ((vars sys)\<lparr>isQuitting := True\<rparr>)"
    by (simp add: isQuitting_inv)
  from stopBackend_inv [OF this s'] s' show ?case by simp
next
  case (seq_process_exit sys k)
  obtain s' where s': "stopBackend k (vars sys) = Inr s'"
    using stopBackend_total by blast
  from stopBackend_inv [OF seq_process_exit.IH s'] s' show ?case by simp
qed

text \<open>
  Claim C2, amended. A call of \<open>startBackend\<close> made while \<open>pythonProcess\<close> is set
  returns a resolved promise at once: it calls \<open>spawn\<close> for nothing and leaves every
  variable, child object and promise as it was. A call made earlier, while the child of
  a previous call is still in flight, is not held back, as the two calls above show.
  When no call is made in that window, at most one child is in flight or supervised at
  any time, and a supervised child is the one stored in \<open>pythonProcess\<close>.
\<close>

theorem startBackend_single_child:
  "(pythonProcess (vars sys) = Some p \<longrightarrow> startBackend h sys = (AlreadyResolved, sys))
   \<and> (sequential h sys \<longrightarrow>
        (\<forall>a b. (in_flight (vars sys) a \<or> supervised (vars sys) a)
               \<and> (in_flight (vars sys) b \<or> supervised (vars sys) b) \<longrightarrow> a = b)
        \<and> (\<forall>a. supervised (vars sys) a \<longrightarrow> pythonProcess (vars sys) = Some a))"
proof (intro conjI impI)
  assume "pythonProcess (vars sys) = Some p"
  then show "startBackend h sys = (AlreadyResolved, sys)" by (simp add: startBackend_def)
next
  assume "sequential h sys"
  then have "launch_inv (vars sys)" by (rule sequential_inv)
  then show "\<forall>a b. (in_flight (vars sys) a \<or> supervised (vars sys) a)
               \<and> (in_flight (vars sys) b \<or> supervised (vars sys) b) \<longrightarrow> a = b"
    and "\<forall>a. supervised (vars sys) a \<longrightarrow> pythonProcess (vars sys) = Some a"
    unfolding launch_inv_def by blast+
qed

lemma launched_once:
  "pythonProcess (vars (run host_ok [Call, Emit 0] initial_system)) = Some 0"
  "nextChild (vars (run host_ok [Call, Emit 0] initial_system)) = 1"
  "listeners (children (vars (run host_ok [Call, Emit 0] initial_system)) 0) = [ExitHandler]"
  "exitCode (children (vars (run host_ok [Call, Emit 0] initial_system)) 0) = None"
  "signalCode (children (vars (run host_ok [Call, Emit 0] initial_system)) 0) = None"
proof -
  let ?fresh = "\<lparr>listeners = [ErrorOnce, SpawnOnce], killed = False, exitCode = None,
      signalCode = None\<rparr>"
  define s1 where "s1 = step host_ok Call initial_system"
  define s2 where "s2 = step host_ok (Emit 0) s1"
  have h: "script_exists host_ok" "os_spawn host_ok 0 (ascii ''python3'') = Spawned"
    by (simp_all add: host_ok_def)
  have i: "pythonProcess (vars initial_system) = None" "nextChild (vars initial_system) = 0"
    by (simp_all add: initial_system_def initial_state_def)
  have e1: "s1 = initial_system\<lparr>promises := promises initial_system @ [Pending],
         spawnLog := spawnLog initial_system @ [ascii ''python3''],
         vars := snd (new_child (vars initial_system)),
         closure := (closure initial_system)(nextChild (vars initial_system) :=
            (length (promises initial_system), [ascii ''python3'', ascii ''python''], 0)),
         awaited := (awaited initial_system)(nextChild (vars initial_system) := Spawned)\<rparr>"
    unfolding s1_def using i(1) h by (rule call_spawned [OF _ _ candidateCommands_host_ok])
  have c10: "children (vars s1) 0 = ?fresh"
    using new_child_simps(3) [of "vars initial_system"] by (simp add: e1 i)
  have f1: "nextChild (vars s1) = 1" "awaited s1 0 = Spawned"
    by (simp_all add: e1 i new_child_simps)
  have e2: "s2 = settle (fst (closure s1 0)) Resolved (s1\<lparr>vars := handleSpawn 0 (vars s1)\<rparr>)"
    unfolding s2_def by (rule emit_spawned) (simp_all add: f1 c10)
  have r: "run host_ok [Call, Emit 0] initial_system = s2"
    by (simp add: s1_def s2_def)
  show "pythonProcess (vars (run host_ok [Call, Emit 0] initial_system)) = Some 0"
    "nextChild (vars (run host_ok [Call, Emit 0] initial_system)) = 1"
    "listeners (children (vars (run host_ok [Call, Emit 0] initial_system)) 0) = [ExitHandler]"
    "exitCode (children (vars (run host_ok [Call, Emit 0] initial_system)) 0) = None"
    "signalCode (children (vars (run host_ok [Call, Emit 0] initial_system)) 0) = None"
    unfolding r by (simp_all add: e2 handleSpawn_simps f1 c10)
qed

theorem startBackend_single_child_witness:
  "startBackend host_ok (run host_ok [Call, Emit 0] initial_system)
     = (AlreadyResolved, run host_ok [Call, Emit 0] initial_system)
   \<and> pythonProcess (vars (run host_ok [Call, Emit 0] initial_system)) = Some 0
   \<and> supervised (vars (run host_ok [Call, Emit 0] initial_system)) 0
   \<and> \<not> supervised (vars (run host_ok [Call, Emit 0] initial_system)) 1
   \<and> \<not> in_flight (vars (run host_ok [Call, Emit 0] initial_system)) 1"
proof -
  let ?sys = "run host_ok [Call, Emit 0] initial_system"
  have i: "\<forall>p. \<not> in_flight (vars initial_system) p"
    by (simp add: in_flight_def initial_system_def initial_state_def)
  have "sequential host_ok (step host_ok (Emit 0) (step host_ok Call initial_system))"
    by (intro seq_emit seq_call seq_init i)
  then have seq: "sequential host_ok ?sys" by simp
  have h: "pythonProcess (vars ?sys) = Some 0" by (rule launched_once)
  have s0: "supervised (vars ?sys) 0"
    unfolding supervised_def launched_once by simp
  note t = startBackend_single_child [of ?sys 0 host_ok]
  from t have "pythonProcess (vars ?sys) = Some 0 \<longrightarrow>
      startBackend host_ok ?sys = (AlreadyResolved, ?sys)"
    by (rule conjunct1)
  from this h have g: "startBackend host_ok ?sys = (AlreadyResolved, ?sys)" by (rule mp)
  from t have "sequential host_ok ?sys \<longrightarrow>
        (\<forall>a b. (in_flight (vars ?sys) a \<or> supervised (vars ?sys) a)
               \<and> (in_flight (vars ?sys) b \<or> supervised (vars ?sys) b) \<longrightarrow> a = b)
        \<and> (\<forall>a. supervised (vars ?sys) a \<longrightarrow> pythonProcess (vars ?sys) = Some a)"
    by (rule conjunct2)
  from this seq have "(\<forall>a b. (in_flight (vars ?sys) a \<or> supervised (vars ?sys) a)
               \<and> (in_flight (vars ?sys) b \<or> supervised (vars ?sys) b) \<longrightarrow> a = b)
        \<and> (\<forall>a. supervised (vars ?sys) a \<longrightarrow> pythonProcess (vars ?sys) = Some a)"
    by (rule mp)
  then have "(in_flight (vars ?sys) 1 \<or> supervised (vars ?sys) 1)
               \<and> (in_flight (vars ?sys) 0 \<or> supervised (vars ?sys) 0) \<longrightarrow> (1::nat) = 0"
    by (elim conjE allE)
  with s0 have u: "\<not> supervised (vars ?sys) 1" "\<not> in_flight (vars ?sys) 1"
    by (simp_all only: simp_thms One_nat_def nat.simps de_Morgan_disj)
  from g h s0 u show ?thesis by (intro conjI)
qed

subsection \<open>The readiness wait\<close>

lemma waitLoop_timeout:
  "\<not> now - start < BACKEND_TIMEOUT_MS \<Longrightarrow>
     waitLoop w i start now s = (Inl ReadinessTimeout, now, [], s)"
  by (subst waitLoop.simps) simp

lemma waitLoop_ready:
  assumes "now - start < BACKEND_TIMEOUT_MS"
    and "run_events (during_ping (w i)) s = Inr s1"
    and "pingBackend (ping_result (w i)) = Inr u"
  shows "waitLoop w i start now s =
     (Inr (), now + ping_ms (w i), during_ping (w i), s1\<lparr>backendReady := True\<rparr>)"
  using assms by (subst waitLoop.simps) simp

lemma waitLoop_gone:
  assumes "now - start < BACKEND_TIMEOUT_MS"
    and "run_events (during_ping (w i)) s = Inr s1"
    and "pingBackend (ping_result (w i)) = Inl e"
    and "child_gone s1"
  shows "waitLoop w i start now s =
     (Inl ChildExitedBeforeReady, now + ping_ms (w i), during_ping (w i), s1)"
  using assms by (subst waitLoop.simps) simp

lemma waitLoop_retry:
  assumes "now - start < BACKEND_TIMEOUT_MS"
    and "run_events (during_ping (w i)) s = Inr s1"
    and "pingBackend (ping_result (w i)) = Inl e"
    and "\<not> child_gone s1"
    and "run_events (during_sleep (w i)) s1 = Inr s2"
  shows "waitLoop w i start now s =
     (case waitLoop w (Suc i) start
             (now + ping_ms (w i) + BACKEND_CHECK_INTERVAL_MS + sleep_late (w i)) s2 of
        (r, t, evs, s') \<Rightarrow> (r, t, during_ping (w i) @ during_sleep (w i) @ evs, s'))"
  using assms by (subst waitLoop.simps) simp

text \<open>
  Claim C3. In any iteration that starts before the deadline: if the request fails and,
  after the events delivered meanwhile, the handle is null or the stored child's
  \<open>exitCode\<close> is set, the wait ends with the child-exited error at the moment the
  request failed. No sleep is added and the deadline plays no part.
\<close>

theorem waitLoop_child_exited:
  assumes "now - start < BACKEND_TIMEOUT_MS"
    and "run_events (during_ping (w i)) s = Inr s1"
    and "pingBackend (ping_result (w i)) \<noteq> Inr ()"
    and "pythonProcess s1 = None
         \<or> (\<exists>p. pythonProcess s1 = Some p \<and> exitCode (children s1 p) \<noteq> None)"
  shows "waitLoop w i start now s =
     (Inl ChildExitedBeforeReady, now + ping_ms (w i), during_ping (w i), s1)"
proof -
  from assms(3) obtain e where e: "pingBackend (ping_result (w i)) = Inl e"
    by (cases "pingBackend (ping_result (w i))") auto
  from assms(4) have g: "child_gone s1"
    by (auto simp: child_gone_def)
  from waitLoop_gone [where w=w and i=i, OF assms(1,2) e g] show ?thesis .
qed

theorem waitLoop_child_exited_witness:
  "\<exists>s1. waitForBackendReady world_child_exits 1000 running_state =
     (Inl ChildExitedBeforeReady, 1005, [ChildExit 0 (ExitCode 1)], s1)
     \<and> pythonProcess s1 = None \<and> exitCode (children s1 0) = Some 1"
proof -
  let ?s1 = "child_exits 0 (ExitCode 1) running_state"
  have w: "during_ping (world_child_exits 0) = [ChildExit 0 (ExitCode 1)]"
    "ping_ms (world_child_exits 0) = 5"
    "pingBackend (ping_result (world_child_exits 0)) \<noteq> Inr ()"
    by (simp_all add: world_child_exits_def every_tick_def quiet_tick_def)
  have r: "run_events (during_ping (world_child_exits 0)) running_state = Inr ?s1"
    by (simp add: w)
  have g: "pythonProcess ?s1 = None" "exitCode (children ?s1 0) = Some 1"
    by (simp_all add: child_exits_def exit_handler_def running_state_def initial_state_def)
  have t: "(1000::nat) - 1000 < BACKEND_TIMEOUT_MS" by (simp add: BACKEND_TIMEOUT_MS_def)
  from waitLoop_child_exited
      [of 1000 1000 world_child_exits 0 running_state ?s1, OF t r w(3)] g(1)
  have "waitLoop world_child_exits 0 1000 1000 running_state =
     (Inl ChildExitedBeforeReady, 1000 + ping_ms (world_child_exits 0),
      during_ping (world_child_exits 0), ?s1)"
    by blast
  then have "waitForBackendReady world_child_exits 1000 running_state =
     (Inl ChildExitedBeforeReady, 1005, [ChildExit 0 (ExitCode 1)], ?s1)"
    by (simp add: waitForBackendReady_def w)
  with g show ?thesis by blast
qed

subsection \<open>What the readiness wait writes\<close>

lemma wait_world_ready:
  "waitForBackendReady world_ready 0 running_state
     = (Inr (), 5, [], running_state\<lparr>backendReady := True\<rparr>)"
proof -
  have w: "during_ping (world_ready 0) = []" "ping_ms (world_ready 0) = 5"
    "pingBackend (ping_result (world_ready 0)) = Inr ()"
    by (simp_all add: world_ready_def every_tick_def quiet_tick_def)
  have t: "(0::nat) - 0 < BACKEND_TIMEOUT_MS" by (simp add: BACKEND_TIMEOUT_MS_def)
  have r: "run_events (during_ping (world_ready 0)) running_state = Inr running_state"
    by (simp add: w)
  have "waitLoop world_ready 0 0 0 running_state
     = (Inr (), 0 + ping_ms (world_ready 0), during_ping (world_ready 0),
        running_state\<lparr>backendReady := True\<rparr>)"
    using t r w(3) by (rule waitLoop_ready)
  then show ?thesis
    by (simp add: waitForBackendReady_def w)
qed

text \<open>
  Claim C4, as stated: the wait leaves the readiness flag unchanged. When the first
  request is answered with 200, the flag is false before the call and true after it.
\<close>

theorem wait_sets_ready_flag:
  "waitForBackendReady world_ready 0 running_state
     = (Inr (), 5, [], running_state\<lparr>backendReady := True\<rparr>)
   \<and> \<not> backendReady running_state
   \<and> running_state\<lparr>backendReady := True\<rparr> \<noteq> running_state"
proof -
  have b: "\<not> backendReady running_state"
    by (simp add: running_state_def initial_state_def)
  have c: "running_state\<lparr>backendReady := True\<rparr> \<noteq> running_state"
  proof
    assume "running_state\<lparr>backendReady := True\<rparr> = running_state"
    then have "backendReady (running_state\<lparr>backendReady := True\<rparr>) = backendReady running_state"
      by simp
    with b show False by simp
  qed
  from wait_world_ready b c show ?thesis by (intro conjI)
qed

lemma running_state_alive: "\<not> child_gone running_state"
  by (simp add: child_gone_def running_state_def initial_state_def)

lemma waitLoop_frame:
  "waitLoop w i start (head_time w start i) s = (r, t, evs, s') \<Longrightarrow>
     \<exists>n s0. i \<le> n
        \<and> events_before w i @ evs
            = events_before w n @ (if r = Inl ReadinessTimeout then [] else during_ping (w n))
        \<and> t = head_time w start n + (if r = Inl ReadinessTimeout then 0 else ping_ms (w n))
        \<and> run_events evs s = Inr s0
        \<and> s' = (if r = Inr () then s0\<lparr>backendReady := True\<rparr> else s0)"
proof (induction "start + BACKEND_TIMEOUT_MS - head_time w start i"
    arbitrary: i s r t evs s' rule: less_induct)
  case less
  let ?now = "head_time w start i"
  show ?case
  proof (cases "?now - start < BACKEND_TIMEOUT_MS")
    case False
    from waitLoop_timeout [OF False, of w i s] less.prems
    have "r = Inl ReadinessTimeout" "t = ?now" "evs = []" "s' = s" by simp_all
    then show ?thesis by (intro exI [of _ i] exI [of _ s]) simp
  next
    case True
    obtain s1 where s1: "run_events (during_ping (w i)) s = Inr s1"
      using run_events_total by blast
    show ?thesis
    proof (cases "pingBackend (ping_result (w i))")
      case (Inr u)
      from waitLoop_ready [where w=w and i=i, OF True s1 Inr] less.prems
      have "r = Inr ()" "t = ?now + ping_ms (w i)" "evs = during_ping (w i)"
        "s' = s1\<lparr>backendReady := True\<rparr>"
        by simp_all
      with s1 show ?thesis by (intro exI [of _ i] exI [of _ s1]) simp
    next
      case (Inl e)
      show ?thesis
      proof (cases "child_gone s1")
        case True
        from waitLoop_gone [where w=w and i=i, OF \<open>?now - start < BACKEND_TIMEOUT_MS\<close> s1 Inl True]
          less.prems
        have "r = Inl ChildExitedBeforeReady" "t = ?now + ping_ms (w i)"
          "evs = during_ping (w i)" "s' = s1"
          by simp_all
        with s1 show ?thesis by (intro exI [of _ i] exI [of _ s1]) simp
      next
        case False
        obtain s2 where s2: "run_events (during_sleep (w i)) s1 = Inr s2"
          using run_events_total by blast
        have nx: "?now + ping_ms (w i) + BACKEND_CHECK_INTERVAL_MS + sleep_late (w i)
            = head_time w start (Suc i)"
          by simp
        obtain r2 t2 evs2 s2' where
          rec: "waitLoop w (Suc i) start (head_time w start (Suc i)) s2 = (r2, t2, evs2, s2')"
          by (cases "waitLoop w (Suc i) start (head_time w start (Suc i)) s2") auto
        have "waitLoop w i start ?now s =
            (r2, t2, during_ping (w i) @ during_sleep (w i) @ evs2, s2')"
          using waitLoop_retry [where w=w and i=i,
              OF \<open>?now - start < BACKEND_TIMEOUT_MS\<close> s1 Inl False s2] rec
          unfolding nx by simp
        with less.prems have eq: "r = r2" "t = t2"
          "evs = during_ping (w i) @ during_sleep (w i) @ evs2" "s' = s2'"
          by simp_all
        have "start + BACKEND_TIMEOUT_MS - head_time w start (Suc i)
            < start + BACKEND_TIMEOUT_MS - ?now"
          using \<open>?now - start < BACKEND_TIMEOUT_MS\<close> by (simp add: BACKEND_CHECK_INTERVAL_MS_def)
        from less.hyps [OF this rec] obtain n s0 where
          n: "Suc i \<le> n"
            "events_before w (Suc i) @ evs2
              = events_before w n @ (if r2 = Inl ReadinessTimeout then [] else during_ping (w n))"
            "t2 = head_time w start n + (if r2 = Inl ReadinessTimeout then 0 else ping_ms (w n))"
            "run_events evs2 s2 = Inr s0"
            "s2' = (if r2 = Inr () then s0\<lparr>backendReady := True\<rparr> else s0)"
          by blast
        have a: "i \<le> n" using n(1) by simp
        have b: "events_before w i @ evs
            = events_before w n @ (if r = Inl ReadinessTimeout then [] else during_ping (w n))"
          using n(2) eq(1,3) by simp
        have c: "run_events evs s = Inr s0"
          using s1 s2 n(4) eq(3) by (simp add: run_events_append)
        from a b c n(3,5) eq show ?thesis by blast
      qed
    qed
  qed
qed

lemma wait_world_exit_while_asleep:
  "waitForBackendReady world_exit_while_asleep 0 running_state
     = (Inl ChildExitedBeforeReady, 1010, [ChildExit 0 (ExitCode 1)],
        child_exits 0 (ExitCode 1) running_state)"
proof -
  let ?w = "world_exit_while_asleep"
  let ?s1 = "child_exits 0 (ExitCode 1) running_state"
  have w: "during_ping (?w i) = []" "during_sleep (?w i) = [ChildExit 0 (ExitCode 1)]"
    "ping_ms (?w i) = 5" "sleep_late (?w i) = 0"
    "pingBackend (ping_result (?w i)) = Inl (NodeError (Some ''ECONNREFUSED'') ''connect'')" for i
    by (simp_all add: world_exit_while_asleep_def every_tick_def quiet_tick_def)
  have g: "child_gone ?s1"
    by (simp add: child_gone_def child_exits_def exit_handler_def running_state_def
        initial_state_def)
  have t0: "(0::nat) - 0 < BACKEND_TIMEOUT_MS" and t1: "(1005::nat) - 0 < BACKEND_TIMEOUT_MS"
    by (simp_all add: BACKEND_TIMEOUT_MS_def)
  have second: "waitLoop ?w 1 0 1005 ?s1 = (Inl ChildExitedBeforeReady, 1010, [], ?s1)"
    using waitLoop_gone [where w="?w" and i=1 and s="?s1" and ?s1.0="?s1", OF t1 _ w(5) g]
    by (simp add: w)
  have "waitLoop ?w 0 0 0 running_state =
     (case waitLoop ?w (Suc 0) 0 (0 + ping_ms (?w 0) + BACKEND_CHECK_INTERVAL_MS + sleep_late (?w 0)) ?s1 of
        (r, t, evs, s') \<Rightarrow> (r, t, during_ping (?w 0) @ during_sleep (?w 0) @ evs, s'))"
    by (rule waitLoop_retry [where w="?w" and i=0, OF t0 _ w(5) running_state_alive])
      (simp_all add: w)
  then show ?thesis
    using second by (simp add: waitForBackendReady_def w BACKEND_CHECK_INTERVAL_MS_def)
qed

text \<open>
  Claim C4, amended. The wait never writes the child handle or a child object. Its only
  write is the readiness flag, set to true when a request succeeds. The events it was
  suspended for are exactly the ones the world delivered in the iterations it ran; on
  the timeout and child-exited outcomes the variables are exactly as the handlers of
  those events left them, and on success they are those with the flag set.
\<close>

theorem waitForBackendReady_frame:
  assumes "waitForBackendReady w now s = (r, t, evs, s')"
  shows "\<exists>n s0. evs = events_before w n
                     @ (if r = Inl ReadinessTimeout then [] else during_ping (w n))
        \<and> t = head_time w now n + (if r = Inl ReadinessTimeout then 0 else ping_ms (w n))
        \<and> run_events evs s = Inr s0
        \<and> s' = (if r = Inr () then s0\<lparr>backendReady := True\<rparr> else s0)
        \<and> pythonProcess s' = pythonProcess s0 \<and> children s' = children s0
        \<and> isQuitting s' = isQuitting s0"
proof -
  from assms have "waitLoop w 0 now (head_time w now 0) s = (r, t, evs, s')"
    by (simp add: waitForBackendReady_def)
  from waitLoop_frame [OF this] obtain n s0 where
    "events_before w 0 @ evs
       = events_before w n @ (if r = Inl ReadinessTimeout then [] else during_ping (w n))"
    "t = head_time w now n + (if r = Inl ReadinessTimeout then 0 else ping_ms (w n))"
    "run_events evs s = Inr s0"
    "s' = (if r = Inr () then s0\<lparr>backendReady := True\<rparr> else s0)"
    by blast
  then show ?thesis by (intro exI [of _ n] exI [of _ s0]) simp
qed

theorem waitForBackendReady_frame_witness:
  "(\<exists>n s0. waitForBackendReady world_exit_while_asleep 0 running_state
               = (Inl ChildExitedBeforeReady, 1010, [ChildExit 0 (ExitCode 1)], s0)
       \<and> [ChildExit 0 (ExitCode 1)]
           = events_before world_exit_while_asleep n @ during_ping (world_exit_while_asleep n)
       \<and> run_events [ChildExit 0 (ExitCode 1)] running_state = Inr s0)
   \<and> (\<exists>t evs s' s0. waitForBackendReady world_ready 0 running_state = (Inr (), t, evs, s')
       \<and> run_events evs running_state = Inr s0
       \<and> s' = s0\<lparr>backendReady := True\<rparr>
       \<and> pythonProcess s' = pythonProcess s0 \<and> children s' = children s0)"
proof -
  have a: "\<exists>n s0. waitForBackendReady world_exit_while_asleep 0 running_state
               = (Inl ChildExitedBeforeReady, 1010, [ChildExit 0 (ExitCode 1)], s0)
       \<and> [ChildExit 0 (ExitCode 1)]
           = events_before world_exit_while_asleep n @ during_ping (world_exit_while_asleep n)
       \<and> run_events [ChildExit 0 (ExitCode 1)] running_state = Inr s0"
    using waitForBackendReady_frame [OF wait_world_exit_while_asleep]
      wait_world_exit_while_asleep
    by auto
  have b: "\<exists>t evs s' s0. waitForBackendReady world_ready 0 running_state = (Inr (), t, evs, s')
       \<and> run_events evs running_state = Inr s0
       \<and> s' = s0\<lparr>backendReady := True\<rparr>
       \<and> pythonProcess s' = pythonProcess s0 \<and> children s' = children s0"
    using waitForBackendReady_frame [OF wait_world_ready] wait_world_ready by auto
  from a b show ?thesis by (intro conjI)
qed

subsection \<open>The deadline of the readiness wait\<close>

text \<open>
  In a world where every iteration is the same quiet tick with a failing request, the
  loop runs \<open>n\<close> iterations as long as each of them starts before the deadline.
\<close>

lemma waitLoop_quiet_step:
  assumes "now - start < BACKEND_TIMEOUT_MS" "pingBackend r \<noteq> Inr ()" "\<not> child_gone s"
  shows "waitLoop (every_tick (quiet_tick r ms)) i start now s =
     waitLoop (every_tick (quiet_tick r ms)) (Suc i) start
       (now + (ms + BACKEND_CHECK_INTERVAL_MS)) s"
proof -
  let ?w = "every_tick (quiet_tick r ms)"
  have w: "during_ping (?w i) = []" "during_sleep (?w i) = []" "ping_ms (?w i) = ms"
    "sleep_late (?w i) = 0" "ping_result (?w i) = r"
    by (simp_all add: every_tick_def quiet_tick_def)
  from assms(2) obtain e where e: "pingBackend (ping_result (?w i)) = Inl e"
    unfolding w by (cases "pingBackend r") auto
  have r1: "run_events (during_ping (?w i)) s = Inr s" "run_events (during_sleep (?w i)) s = Inr s"
    by (simp_all add: w)
  have "waitLoop ?w i start now s =
     (case waitLoop ?w (Suc i) start
             (now + ping_ms (?w i) + BACKEND_CHECK_INTERVAL_MS + sleep_late (?w i)) s of
        (r, t, evs, s') \<Rightarrow> (r, t, during_ping (?w i) @ during_sleep (?w i) @ evs, s'))"
    using assms(1) r1(1) e assms(3) r1(2) by (rule waitLoop_retry)
  then show ?thesis
    unfolding w by (simp add: add.assoc split: prod.splits)
qed

lemma waitLoop_quiet_steps:
  assumes "pingBackend r \<noteq> Inr ()" "\<not> child_gone s"
    and "\<forall>k<n. now + k * (ms + BACKEND_CHECK_INTERVAL_MS) - start < BACKEND_TIMEOUT_MS"
  shows "waitLoop (every_tick (quiet_tick r ms)) i start now s =
     waitLoop (every_tick (quiet_tick r ms)) (i + n) start
       (now + n * (ms + BACKEND_CHECK_INTERVAL_MS)) s"
  using assms(3)
proof (induction n arbitrary: i now)
  case 0
  show ?case by simp
next
  case (Suc n)
  from Suc.prems have first: "now - start < BACKEND_TIMEOUT_MS" by auto
  have "\<forall>k<n. now + (ms + BACKEND_CHECK_INTERVAL_MS) + k * (ms + BACKEND_CHECK_INTERVAL_MS) - start
      < BACKEND_TIMEOUT_MS"
  proof (intro allI impI)
    fix k assume "k < n"
    then have "Suc k < Suc n" by simp
    with Suc.prems have "now + Suc k * (ms + BACKEND_CHECK_INTERVAL_MS) - start < BACKEND_TIMEOUT_MS"
      by blast
    then show "now + (ms + BACKEND_CHECK_INTERVAL_MS) + k * (ms + BACKEND_CHECK_INTERVAL_MS) - start
      < BACKEND_TIMEOUT_MS"
      by (simp add: add.assoc)
  qed
  from Suc.IH [OF this, of "Suc i"]
  have "waitLoop (every_tick (quiet_tick r ms)) (Suc i) start
          (now + (ms + BACKEND_CHECK_INTERVAL_MS)) s =
        waitLoop (every_tick (quiet_tick r ms)) (Suc i + n) start
          (now + (ms + BACKEND_CHECK_INTERVAL_MS) + n * (ms + BACKEND_CHECK_INTERVAL_MS)) s" .
  moreover have "now + (ms + BACKEND_CHECK_INTERVAL_MS) + n * (ms + BACKEND_CHECK_INTERVAL_MS)
      = now + Suc n * (ms + BACKEND_CHECK_INTERVAL_MS)"
    by simp
  moreover have "Suc i + n = i + Suc n" by simp
  ultimately show ?case
    using waitLoop_quiet_step [OF first assms(1,2), of ms i] by simp
qed

text \<open>
  Claim C5, as stated: the timeout is reported within one poll interval of the
  deadline. When every request is answered with 503 after 2999 ms, the 46th iteration
  starts at 179955 ms, before the deadline of 180000 ms, and the timeout is reported at
  183954 ms, more than one poll interval (1000 ms) after the deadline.
\<close>

theorem wait_overshoots_deadline:
  "waitForBackendReady world_unavailable 0 running_state
     = (Inl ReadinessTimeout, 183954, [], running_state)
   \<and> \<not> 183954 \<le> BACKEND_TIMEOUT_MS + BACKEND_CHECK_INTERVAL_MS"
proof -
  have p: "pingBackend (Response (Some 503) []) \<noteq> Inr ()" by simp
  have "\<forall>k<46. 0 + k * (2999 + BACKEND_CHECK_INTERVAL_MS) - 0 < BACKEND_TIMEOUT_MS"
    by (simp add: BACKEND_CHECK_INTERVAL_MS_def BACKEND_TIMEOUT_MS_def)
  from waitLoop_quiet_steps [OF p running_state_alive this, of 0]
  have "waitLoop world_unavailable 0 0 0 running_state =
      waitLoop world_unavailable 46 0 183954 running_state"
    by (simp add: world_unavailable_def BACKEND_CHECK_INTERVAL_MS_def)
  moreover have "waitLoop world_unavailable 46 0 183954 running_state =
      (Inl ReadinessTimeout, 183954, [], running_state)"
    by (rule waitLoop_timeout) (simp add: BACKEND_TIMEOUT_MS_def)
  ultimately have "waitForBackendReady world_unavailable 0 running_state
     = (Inl ReadinessTimeout, 183954, [], running_state)"
    by (simp add: waitForBackendReady_def)
  moreover have "\<not> 183954 \<le> BACKEND_TIMEOUT_MS + BACKEND_CHECK_INTERVAL_MS"
    by (simp add: BACKEND_CHECK_INTERVAL_MS_def BACKEND_TIMEOUT_MS_def)
  ultimately show ?thesis by (intro conjI)
qed

lemma waitLoop_times_out:
  assumes quiet: "\<forall>i. during_ping (w i) = [] \<and> during_sleep (w i) = []
                     \<and> pingBackend (ping_result (w i)) \<noteq> Inr ()"
    and alive: "\<not> child_gone s"
  shows "\<forall>k<i. head_time w start k < start + BACKEND_TIMEOUT_MS \<Longrightarrow>
         start \<le> head_time w start i \<Longrightarrow>
         \<exists>n. i \<le> n
            \<and> waitLoop w i start (head_time w start i) s
                = (Inl ReadinessTimeout, head_time w start n, [], s)
            \<and> start + BACKEND_TIMEOUT_MS \<le> head_time w start n
            \<and> (\<forall>k<n. head_time w start k < start + BACKEND_TIMEOUT_MS)"
proof (induction "start + BACKEND_TIMEOUT_MS - head_time w start i" arbitrary: i rule: less_induct)
  case less
  let ?now = "head_time w start i"
  show ?case
  proof (cases "?now - start < BACKEND_TIMEOUT_MS")
    case False
    then have "waitLoop w i start ?now s = (Inl ReadinessTimeout, ?now, [], s)"
      by (rule waitLoop_timeout)
    moreover from False less.prems(2) have "start + BACKEND_TIMEOUT_MS \<le> ?now" by simp
    ultimately show ?thesis using less.prems(1) by (intro exI [of _ i]) simp
  next
    case True
    from quiet have q: "during_ping (w i) = []" "during_sleep (w i) = []"
      "pingBackend (ping_result (w i)) \<noteq> Inr ()"
      by simp_all
    from q(3) obtain e where e: "pingBackend (ping_result (w i)) = Inl e"
      by (cases "pingBackend (ping_result (w i))") auto
    have r: "run_events (during_ping (w i)) s = Inr s" "run_events (during_sleep (w i)) s = Inr s"
      by (simp_all add: q)
    have "waitLoop w i start ?now s =
       (case waitLoop w (Suc i) start
               (?now + ping_ms (w i) + BACKEND_CHECK_INTERVAL_MS + sleep_late (w i)) s of
          (r, t, evs, s') \<Rightarrow> (r, t, during_ping (w i) @ during_sleep (w i) @ evs, s'))"
      using True r(1) e alive r(2) by (rule waitLoop_retry [where w=w and i=i])
    then have step: "waitLoop w i start ?now s =
       (case waitLoop w (Suc i) start (head_time w start (Suc i)) s of
          (r, t, evs, s') \<Rightarrow> (r, t, evs, s'))"
      by (simp add: q)
    have m: "start + BACKEND_TIMEOUT_MS - head_time w start (Suc i)
        < start + BACKEND_TIMEOUT_MS - ?now"
      using True by (simp add: BACKEND_CHECK_INTERVAL_MS_def)
    from True have "?now < start + BACKEND_TIMEOUT_MS" using less.prems(2) by simp
    with less.prems(1) have before: "\<forall>k<Suc i. head_time w start k < start + BACKEND_TIMEOUT_MS"
      by (simp add: less_Suc_eq)
    have le: "start \<le> head_time w start (Suc i)" using less.prems(2) by simp
    from less.hyps [OF m before le] obtain n where
      n: "Suc i \<le> n"
        "waitLoop w (Suc i) start (head_time w start (Suc i)) s
           = (Inl ReadinessTimeout, head_time w start n, [], s)"
        "start + BACKEND_TIMEOUT_MS \<le> head_time w start n"
        "\<forall>k<n. head_time w start k < start + BACKEND_TIMEOUT_MS"
      by blast
    have "waitLoop w i start ?now s = (Inl ReadinessTimeout, head_time w start n, [], s)"
      unfolding step n(2) by simp
    moreover have "i \<le> n" using n(1) by simp
    ultimately show ?thesis using n(3,4) by blast
  qed
qed

lemma head_time_every_tick:
  "head_time (every_tick (quiet_tick r ms)) start n
     = start + n * (ms + BACKEND_CHECK_INTERVAL_MS)"
  by (induction n) (simp_all add: every_tick_def quiet_tick_def)

text \<open>
  Claim C5, amended. Let every request fail, let no exit or shutdown event arrive, and
  let the stored child be alive. Then the wait ends with the timeout error exactly at
  the first head of the loop at which the elapsed time has reached
  \<open>BACKEND_TIMEOUT_MS\<close>: at least one iteration has run, every earlier head was before
  the deadline, this one is not, and it is later than the deadline by less than the
  iteration that just ended took (its request, one poll interval and the lateness of
  its timer). No event is reported and no variable has changed.
\<close>

theorem waitForBackendReady_times_out:
  assumes "\<forall>i. during_ping (w i) = [] \<and> during_sleep (w i) = []
                \<and> pingBackend (ping_result (w i)) \<noteq> Inr ()"
    and "pythonProcess s = Some p" "exitCode (children s p) = None"
  shows "\<exists>n. waitForBackendReady w now s = (Inl ReadinessTimeout, head_time w now n, [], s)
            \<and> 0 < n
            \<and> (\<forall>k<n. head_time w now k < now + BACKEND_TIMEOUT_MS)
            \<and> now + BACKEND_TIMEOUT_MS \<le> head_time w now n
            \<and> head_time w now n < now + BACKEND_TIMEOUT_MS
                 + (ping_ms (w (n - 1)) + BACKEND_CHECK_INTERVAL_MS + sleep_late (w (n - 1)))"
proof -
  from assms(2,3) have alive: "\<not> child_gone s" by (simp add: child_gone_def)
  have "\<forall>k<0. head_time w now k < now + BACKEND_TIMEOUT_MS" "now \<le> head_time w now 0"
    by simp_all
  from waitLoop_times_out [OF assms(1) alive this] obtain n where
    n: "waitLoop w 0 now (head_time w now 0) s = (Inl ReadinessTimeout, head_time w now n, [], s)"
      "now + BACKEND_TIMEOUT_MS \<le> head_time w now n"
      "\<forall>k<n. head_time w now k < now + BACKEND_TIMEOUT_MS"
    by blast
  have pos: "0 < n"
  proof (rule ccontr)
    assume "\<not> 0 < n"
    then have "n = 0" by simp
    with n(2) show False by (simp add: BACKEND_TIMEOUT_MS_def)
  qed
  then obtain m where m: "n = Suc m" by (cases n) auto
  with n(3) have "head_time w now m < now + BACKEND_TIMEOUT_MS" by simp
  then have late: "head_time w now n < now + BACKEND_TIMEOUT_MS
                 + (ping_ms (w (n - 1)) + BACKEND_CHECK_INTERVAL_MS + sleep_late (w (n - 1)))"
    unfolding m by simp
  from n(1) have "waitForBackendReady w now s = (Inl ReadinessTimeout, head_time w now n, [], s)"
    by (simp add: waitForBackendReady_def)
  with pos n(2,3) late show ?thesis by blast
qed

theorem waitForBackendReady_times_out_witness:
  "waitForBackendReady world_unavailable 0 running_state
      = (Inl ReadinessTimeout, 183954, [], running_state)
   \<and> head_time world_unavailable 0 45 = 179955
   \<and> head_time world_unavailable 0 46 = 183954"
proof -
  have q: "\<forall>i. during_ping (world_unavailable i) = [] \<and> during_sleep (world_unavailable i) = []
                \<and> pingBackend (ping_result (world_unavailable i)) \<noteq> Inr ()"
    by (simp add: world_unavailable_def every_tick_def quiet_tick_def)
  have a: "pythonProcess running_state = Some 0" "exitCode (children running_state 0) = None"
    by (simp_all add: running_state_def initial_state_def)
  have ht: "head_time world_unavailable 0 k = k * 3999" for k
    by (simp add: world_unavailable_def head_time_every_tick BACKEND_CHECK_INTERVAL_MS_def)
  from waitForBackendReady_times_out [OF q a, of 0] obtain n where
    n: "waitForBackendReady world_unavailable 0 running_state
          = (Inl ReadinessTimeout, head_time world_unavailable 0 n, [], running_state)"
      "\<forall>k<n. head_time world_unavailable 0 k < 0 + BACKEND_TIMEOUT_MS"
      "0 + BACKEND_TIMEOUT_MS \<le> head_time world_unavailable 0 n"
    by blast
  from n(3) have lo: "46 \<le> n" by (simp add: ht BACKEND_TIMEOUT_MS_def)
  have hi: "n \<le> 46"
  proof (rule ccontr)
    assume "\<not> n \<le> 46"
    then have "46 < n" by simp
    with n(2) have "head_time world_unavailable 0 46 < 0 + BACKEND_TIMEOUT_MS" by blast
    then show False by (simp add: ht BACKEND_TIMEOUT_MS_def)
  qed
  from lo hi have "n = 46" by simp
  with n(1) have "waitForBackendReady world_unavailable 0 running_state
      = (Inl ReadinessTimeout, 183954, [], running_state)"
    by (simp add: ht)
  moreover have "head_time world_unavailable 0 45 = 179955" "head_time world_unavailable 0 46 = 183954"
    by (simp_all add: ht)
  ultimately show ?thesis by (intro conjI)
qed

end
